theory Spec2Isabelle
  imports Main "HOL-Library.AList" "HOL-Library.Char_ord" "HOL-Library.List_Lexorder"
    "HOL-Library.Multiset"
begin

section \<open>Data model (lib/types.ts)\<close>

text \<open>
  A JavaScript \<open>number\<close> is modelled as an integer or \<open>NaN\<close>. \<open>NaN\<close> stands for every
  weight that the weight scan reports as missing: the static type \<open>w: number\<close> leaves
  \<open>NaN\<close> as the only such value, and an imported edge that lacks its weight is reported
  in the same way. Arithmetic with \<open>NaN\<close> yields \<open>NaN\<close> and every comparison with
  \<open>NaN\<close> is false, as in the source language. A template string renders an integer in
  decimal (the integers below \<open>10^21\<close> in magnitude, which is where the source language
  switches to exponent notation). Strings are lists of 8-bit characters (labels whose
  code units are below 256). Node positions are pairs of integers.
\<close>

datatype number = NaN | Num int

record edge =
  u :: string
  v :: string
  w :: number

record Graph =
  vertices :: "string list"
  edges :: "edge list"

type_synonym NodePosition = "int \<times> int"

datatype StepType = Consider | Keep | Delete | Complete

record Step =
  step_type :: StepType
  step_edge :: edge
  explanation :: string
  snapshot :: Graph
  stepNumber :: nat

datatype ErrorType =
  duplicate_edge | missing_weight | negative_weight | disconnected | self_loop | multi_edge

record ValidationError =
  err_type :: ErrorType
  message :: string
  err_edge :: "edge option"
  vertex :: "string option"

record GraphHistoryEntry =
  h_graph :: Graph
  h_nodePositions :: "string \<rightharpoonup> NodePosition"

text \<open>The string literal that tags each error kind in \<open>types.ts\<close>.\<close>

fun type_tag :: "ErrorType \<Rightarrow> string" where
  "type_tag duplicate_edge = ''duplicate_edge''"
| "type_tag missing_weight = ''missing_weight''"
| "type_tag negative_weight = ''negative_weight''"
| "type_tag disconnected = ''disconnected''"
| "type_tag self_loop = ''self_loop''"
| "type_tag multi_edge = ''multi_edge''"

section \<open>Numbers and their rendering in template strings\<close>

fun num_sub :: "number \<Rightarrow> number \<Rightarrow> number" where
  "num_sub (Num a) (Num b) = Num (a - b)"
| "num_sub _ _ = NaN"

fun num_add :: "number \<Rightarrow> number \<Rightarrow> number" where
  "num_add (Num a) (Num b) = Num (a + b)"
| "num_add _ _ = NaN"

fun isNaN :: "number \<Rightarrow> bool" where
  "isNaN NaN = True"
| "isNaN (Num _) = False"

fun num_neg :: "number \<Rightarrow> bool" where
  "num_neg NaN = False"
| "num_neg (Num a) = (a < 0)"

fun num_pos :: "number \<Rightarrow> bool" where
  "num_pos NaN = False"
| "num_pos (Num a) = (0 < a)"

definition digit :: "nat \<Rightarrow> char" where
  "digit n = ''0123456789'' ! n"

function show_nat :: "nat \<Rightarrow> string" where
  "show_nat n = (if n < 10 then [digit n] else show_nat (n div 10) @ [digit (n mod 10)])"
  by pat_completeness auto
termination
  by (relation "measure (\<lambda>n. n)") auto

declare show_nat.simps [simp del]

fun show_number :: "number \<Rightarrow> string" where
  "show_number NaN = ''NaN''"
| "show_number (Num i) = (if i < 0 then ''-'' @ show_nat (nat (- i)) else show_nat (nat i))"

section \<open>Graph primitives (lib/graph.ts)\<close>

definition edgesEqual :: "edge \<Rightarrow> edge \<Rightarrow> bool" where
  "edgesEqual e1 e2 \<longleftrightarrow> (u e1 = u e2 \<and> v e1 = v e2) \<or> (u e1 = v e2 \<and> v e1 = u e2)"

definition cloneGraph :: "Graph \<Rightarrow> Graph" where
  "cloneGraph g = \<lparr>vertices = map (\<lambda>x. x) (vertices g),
                   edges = map (\<lambda>e. \<lparr>u = u e, v = v e, w = w e\<rparr>) (edges g)\<rparr>"

definition removeEdge :: "Graph \<Rightarrow> edge \<Rightarrow> Graph" where
  "removeEdge g e = g\<lparr>edges := filter (\<lambda>e'. \<not> edgesEqual e' e) (edges g)\<rparr>"

definition addEdge_graph :: "Graph \<Rightarrow> edge \<Rightarrow> Graph" where
  "addEdge_graph g e = g\<lparr>edges := edges g @ [e]\<rparr>"

subsection \<open>Connectivity\<close>

text \<open>
  The adjacency \<open>Map<string, string[]>\<close> is an association list. Every vertex is first
  mapped to the empty array; then, for each edge in order, \<open>adjList.get(u)?.push(v)\<close> and
  \<open>adjList.get(v)?.push(u)\<close> append to the arrays of the keys that exist and do nothing
  for a key that is absent.
\<close>

type_synonym adjList = "(string \<times> string list) list"

definition adj_init :: "string list \<Rightarrow> adjList" where
  "adj_init vs = fold (\<lambda>x al. AList.update x [] al) vs []"

definition adj_push :: "string \<Rightarrow> string \<Rightarrow> adjList \<Rightarrow> adjList" where
  "adj_push a b al = (case map_of al a of None \<Rightarrow> al | Some l \<Rightarrow> AList.update a (l @ [b]) al)"

definition buildAdjList :: "Graph \<Rightarrow> adjList" where
  "buildAdjList g =
     fold (\<lambda>e al. adj_push (v e) (u e) (adj_push (u e) (v e) al)) (edges g) (adj_init (vertices g))"

definition neighbors :: "adjList \<Rightarrow> string \<Rightarrow> string list" where
  "neighbors al x = (case map_of al x of None \<Rightarrow> [] | Some l \<Rightarrow> l)"

text \<open>
  The recursive \<open>dfs\<close> of the source adds its vertex to \<open>visited\<close> and then calls itself on
  each neighbour that is not yet visited when the loop reaches it. The pending loop
  remainders of all active calls form the work list \<open>todo\<close>: taking a vertex off the
  front is the loop test \<open>!visited.has(neighbor)\<close>, and a call puts the callee's
  neighbours in front of what remains. \<open>visited\<close> is the set in insertion order.
\<close>

function dfs :: "adjList \<Rightarrow> string list \<Rightarrow> string list \<Rightarrow> string list" where
  "dfs al [] visited = visited"
| "dfs al (x # todo) visited =
     (if x \<in> set visited then dfs al todo visited
      else dfs al (neighbors al x @ todo) (visited @ [x]))"
  by pat_completeness auto
termination
proof (relation "measures [\<lambda>(al, todo, visited). card (fst ` set al - set visited),
                           \<lambda>(al, todo, visited). length todo]", goal_cases)
  case 1
  show ?case by simp
next
  case (2 al x todo visited)
  then show ?case by simp
next
  case (3 al x todo visited)
  show ?case
  proof (cases "x \<in> fst ` set al")
    case True
    have "fst ` set al - set (visited @ [x]) \<subset> fst ` set al - set visited"
      using True 3 by auto
    then have "card (fst ` set al - set (visited @ [x])) < card (fst ` set al - set visited)"
      by (intro psubset_card_mono) auto
    then show ?thesis by simp
  next
    case False
    then have "map_of al x = None"
      by (simp add: map_of_eq_None_iff)
    moreover have "fst ` set al - set (visited @ [x]) = fst ` set al - set visited"
      using False by auto
    ultimately show ?thesis by (simp add: neighbors_def)
  qed
qed

definition isConnected :: "Graph \<Rightarrow> bool" where
  "isConnected g =
     (if length (vertices g) = 0 then True
      else if length (vertices g) = 1 then True
      else length (dfs (buildAdjList g) [vertices g ! 0] []) = length (vertices g))"

subsection \<open>Label generation\<close>

text \<open>
  \<open>graph.vertices.sort()\<close> sorts the array of the argument itself, by code units, and
  returns that same array. The function therefore returns, next to the label, the graph
  as the call leaves it. \<open>String.fromCharCode(c + 1)\<close> is computed on the code as a
  natural number, and \<open>nextChar <= 'Z'\<close> compares one-character strings, that is codes.
\<close>

definition getNextVertexLabel :: "Graph \<Rightarrow> string \<times> Graph" where
  "getNextVertexLabel g =
     (let labels = sort (vertices g);
          g' = g\<lparr>vertices := labels\<rparr>;
          fallback = ''A'' @ show_nat (length labels)
      in if length labels = 0 then (''A'', g')
         else
           let lastLabel = labels ! (length labels - 1)
           in if length lastLabel = 1
              then
                let nextCode = (of_char (lastLabel ! 0) :: nat) + 1
                in if nextCode \<le> of_char CHR ''Z'' then ([char_of nextCode], g')
                   else (fallback, g')
              else (fallback, g'))"

section \<open>Reverse-Delete (lib/reverseDelete.ts)\<close>

text \<open>
  \<open>[...graph.edges].sort((a, b) => b.w - a.w)\<close> is a stable sort of a copy. An element
  moves behind a later one only when the comparator is positive on the pair; a \<open>NaN\<close>
  result counts as zero.
\<close>

definition cmp_weight_desc :: "edge \<Rightarrow> edge \<Rightarrow> number" where
  "cmp_weight_desc a b = num_sub (w b) (w a)"

fun insert_by :: "('a \<Rightarrow> 'a \<Rightarrow> number) \<Rightarrow> 'a \<Rightarrow> 'a list \<Rightarrow> 'a list" where
  "insert_by cmp x [] = [x]"
| "insert_by cmp x (y # ys) =
     (if num_pos (cmp x y) then y # insert_by cmp x ys else x # y # ys)"

definition stable_sort_by :: "('a \<Rightarrow> 'a \<Rightarrow> number) \<Rightarrow> 'a list \<Rightarrow> 'a list" where
  "stable_sort_by cmp xs = foldr (insert_by cmp) xs []"

definition edge_name :: "edge \<Rightarrow> string" where
  "edge_name e = u e @ ''-'' @ v e"

definition getTotalWeight :: "Graph \<Rightarrow> number" where
  "getTotalWeight g = foldl (\<lambda>sum e. num_add sum (w e)) (Num 0) (edges g)"

definition consider_step :: "edge \<Rightarrow> Graph \<Rightarrow> nat \<Rightarrow> Step" where
  "consider_step e cur n =
     \<lparr>step_type = Consider, step_edge = e,
      explanation = ''Considering edge '' @ edge_name e @ '' with weight '' @ show_number (w e)
                    @ '' (heaviest remaining).'',
      snapshot = cloneGraph cur, stepNumber = n\<rparr>"

definition keep_step :: "edge \<Rightarrow> Graph \<Rightarrow> nat \<Rightarrow> Step" where
  "keep_step e cur n =
     \<lparr>step_type = Keep, step_edge = e,
      explanation = ''Keeping edge '' @ edge_name e @ '' (weight '' @ show_number (w e)
                    @ ''). Removing it would disconnect the graph, so it's part of the MST.'',
      snapshot = cloneGraph cur, stepNumber = n\<rparr>"

definition delete_step :: "edge \<Rightarrow> Graph \<Rightarrow> nat \<Rightarrow> Step" where
  "delete_step e cur n =
     \<lparr>step_type = Delete, step_edge = e,
      explanation = ''Removing edge '' @ edge_name e @ '' (weight '' @ show_number (w e)
                    @ ''). Graph remains connected, so this edge is not needed for the MST.'',
      snapshot = cloneGraph cur, stepNumber = n\<rparr>"

text \<open>
  The body of the \<open>for\<close> loop over \<open>sortedEdges\<close>; the loop state is the working graph,
  the steps pushed so far and the step counter.
\<close>

fun process_edges :: "edge list \<Rightarrow> Graph \<times> Step list \<times> nat \<Rightarrow> Graph \<times> Step list \<times> nat" where
  "process_edges [] st = st"
| "process_edges (e # es) (cur, steps, n) =
     (if \<not> list_ex (\<lambda>e'. edgesEqual e' e) (edges cur) then process_edges es (cur, steps, n)
      else
        let steps1 = steps @ [consider_step e cur n];
            graphWithoutEdge = removeEdge cur e;
            removalWouldDisconnect = \<not> isConnected graphWithoutEdge
        in if removalWouldDisconnect
           then process_edges es (cur, steps1 @ [keep_step e cur (n + 1)], n + 2)
           else process_edges es
                  (graphWithoutEdge, steps1 @ [delete_step e graphWithoutEdge (n + 1)], n + 2))"

definition reverseDelete :: "Graph \<Rightarrow> Step list" where
  "reverseDelete g =
     (let currentGraph = cloneGraph g;
          sortedEdges = stable_sort_by cmp_weight_desc (edges g)
      in if length sortedEdges = 0 then []
         else
           let steps0 =
                 [\<lparr>step_type = Consider, step_edge = sortedEdges ! 0,
                   explanation = ''Starting Reverse-Delete algorithm. We'll process edges in descending order of weight.'',
                   snapshot = cloneGraph currentGraph, stepNumber = 0\<rparr>];
               (cur, steps, n) = process_edges sortedEdges (currentGraph, steps0, 1);
               mstWeight = foldl (\<lambda>sum e. num_add sum (w e)) (Num 0) (edges cur)
           in steps @
              [\<lparr>step_type = Complete, step_edge = sortedEdges ! (length sortedEdges - 1),
                explanation = ''Algorithm complete! The MST has '' @ show_nat (length (edges cur))
                  @ '' edges with total weight '' @ show_number mstWeight @ ''.'',
                snapshot = cloneGraph cur, stepNumber = n\<rparr>])"

section \<open>Validation (lib/validation.ts)\<close>

definition mk_error :: "ErrorType \<Rightarrow> string \<Rightarrow> edge option \<Rightarrow> ValidationError" where
  "mk_error t msg e = \<lparr>err_type = t, message = msg, err_edge = e, vertex = None\<rparr>"

text \<open>
  The duplicate scan: \<open>seenEdges\<close> is the set of keys seen so far, \<open>errors\<close> the array
  being filled. The keys are the template strings \<open>`${edge.u}-${edge.v}`\<close> and
  \<open>`${edge.v}-${edge.u}`\<close>.
\<close>

fun duplicate_scan ::
  "edge list \<Rightarrow> string list \<Rightarrow> ValidationError list \<Rightarrow> ValidationError list" where
  "duplicate_scan [] seenEdges errors = errors"
| "duplicate_scan (e # es) seenEdges errors =
     (let edgeKey1 = u e @ ''-'' @ v e;
          edgeKey2 = v e @ ''-'' @ u e
      in if edgeKey1 \<in> set seenEdges \<or> edgeKey2 \<in> set seenEdges
         then duplicate_scan es seenEdges
                (errors @ [mk_error duplicate_edge (''Duplicate edge found: '' @ edge_name e) (Some e)])
         else duplicate_scan es (List.insert edgeKey2 (List.insert edgeKey1 seenEdges)) errors)"

fun self_loop_scan :: "edge list \<Rightarrow> ValidationError list \<Rightarrow> ValidationError list" where
  "self_loop_scan [] errors = errors"
| "self_loop_scan (e # es) errors =
     (if u e = v e
      then self_loop_scan es
             (errors @ [mk_error self_loop (''Self-loop detected at vertex '' @ u e) (Some e)])
      else self_loop_scan es errors)"

fun weight_scan :: "edge list \<Rightarrow> ValidationError list \<Rightarrow> ValidationError list" where
  "weight_scan [] errors = errors"
| "weight_scan (e # es) errors =
     (if isNaN (w e)
      then weight_scan es
             (errors @ [mk_error missing_weight (''Missing weight for edge '' @ edge_name e) (Some e)])
      else if num_neg (w e)
      then weight_scan es
             (errors @ [mk_error negative_weight
                (''Negative weight found for edge '' @ edge_name e @ '': '' @ show_number (w e))
                (Some e)])
      else weight_scan es errors)"

fun invalid_vertex_scan ::
  "string list \<Rightarrow> edge list \<Rightarrow> ValidationError list \<Rightarrow> ValidationError list" where
  "invalid_vertex_scan vs [] errors = errors"
| "invalid_vertex_scan vs (e # es) errors =
     (let errors1 =
            (if u e \<notin> set vs
             then errors @ [mk_error multi_edge
                    (''Edge references non-existent vertex: '' @ u e) (Some e)]
             else errors);
          errors2 =
            (if v e \<notin> set vs
             then errors1 @ [mk_error multi_edge
                    (''Edge references non-existent vertex: '' @ v e) (Some e)]
             else errors1)
      in invalid_vertex_scan vs es errors2)"

definition validateGraph :: "Graph \<Rightarrow> ValidationError list" where
  "validateGraph g =
     (if length (vertices g) = 0
      then [mk_error disconnected ''Graph must have at least one vertex'' None]
      else
        let errors1 = duplicate_scan (edges g) [] [];
            errors2 = self_loop_scan (edges g) errors1;
            errors3 = weight_scan (edges g) errors2;
            errors4 = invalid_vertex_scan (vertices g) (edges g) errors3
        in if length errors4 = 0 \<and> \<not> isConnected g
           then errors4 @ [mk_error disconnected
                  ''Graph is not connected. All vertices must be reachable from each other.'' None]
           else errors4)"

definition isValidGraph :: "Graph \<Rightarrow> bool" where
  "isValidGraph g \<longleftrightarrow> length (validateGraph g) = 0"

section \<open>The store (lib/store.ts)\<close>

datatype PlaySpeed = slow | normal | fast

record GraphStore =
  graph :: Graph
  nodePositions :: "string \<rightharpoonup> NodePosition"
  steps :: "Step list"
  currentStep :: nat
  isPlaying :: bool
  playSpeed :: PlaySpeed
  validationErrors :: "ValidationError list"
  selectedVertices :: "string list"
  selectedEdge :: "(string \<times> string) option"
  edgeCreationMode :: bool
  history :: "GraphHistoryEntry list"
  future :: "GraphHistoryEntry list"

definition initialGraph :: Graph where
  "initialGraph = \<lparr>vertices = [], edges = []\<rparr>"

definition initialStore :: GraphStore where
  "initialStore =
     \<lparr>graph = initialGraph, nodePositions = Map.empty, steps = [], currentStep = 0,
      isPlaying = False, playSpeed = normal, validationErrors = [], selectedVertices = [],
      selectedEdge = None, edgeCreationMode = False, history = [], future = []\<rparr>"

definition validate :: "GraphStore \<Rightarrow> GraphStore" where
  "validate s = s\<lparr>validationErrors := validateGraph (graph s)\<rparr>"

definition pushToHistory :: "GraphStore \<Rightarrow> GraphStore" where
  "pushToHistory s =
     (if length (steps s) > 0 then s
      else
        let entry = \<lparr>h_graph = cloneGraph (graph s), h_nodePositions = nodePositions s\<rparr>
        in s\<lparr>history := history s @ [entry], future := []\<rparr>)"

definition canUndo :: "GraphStore \<Rightarrow> bool" where
  "canUndo s \<longleftrightarrow> length (history s) > 0 \<and> length (steps s) = 0"

definition canRedo :: "GraphStore \<Rightarrow> bool" where
  "canRedo s \<longleftrightarrow> length (future s) > 0 \<and> length (steps s) = 0"

definition undo :: "GraphStore \<Rightarrow> GraphStore" where
  "undo s =
     (if length (history s) = 0 \<or> length (steps s) > 0 then s
      else
        let currentState = \<lparr>h_graph = cloneGraph (graph s), h_nodePositions = nodePositions s\<rparr>;
            previousState = history s ! (length (history s) - 1);
            newHistory = take (length (history s) - 1) (history s)
        in validate
             (s\<lparr>graph := h_graph previousState,
                nodePositions := h_nodePositions previousState,
                history := newHistory,
                future := currentState # future s,
                steps := [], currentStep := 0,
                selectedVertices := [], selectedEdge := None\<rparr>))"

definition redo :: "GraphStore \<Rightarrow> GraphStore" where
  "redo s =
     (if length (future s) = 0 \<or> length (steps s) > 0 then s
      else
        let currentState = \<lparr>h_graph = cloneGraph (graph s), h_nodePositions = nodePositions s\<rparr>;
            nextState = future s ! 0;
            newFuture = drop 1 (future s)
        in validate
             (s\<lparr>graph := h_graph nextState,
                nodePositions := h_nodePositions nextState,
                history := history s @ [currentState],
                future := newFuture,
                steps := [], currentStep := 0,
                selectedVertices := [], selectedEdge := None\<rparr>))"

text \<open>
  \<open>addVertex(label?)\<close>: an absent or empty label is falsy, so the label is generated,
  and the call of \<open>getNextVertexLabel\<close> leaves the array of the store's graph sorted,
  whether or not the new label is then accepted.
\<close>

definition default_position :: "nat \<Rightarrow> NodePosition" where
  "default_position i = (300 + int (i mod 4) * 200, 200 + int (i div 4) * 200)"

definition addVertex :: "string option \<Rightarrow> GraphStore \<Rightarrow> GraphStore" where
  "addVertex label s =
     (let (newLabel, g) =
            (case label of
               Some l \<Rightarrow> if l \<noteq> [] then (l, graph s) else getNextVertexLabel (graph s)
             | None \<Rightarrow> getNextVertexLabel (graph s));
          s1 = s\<lparr>graph := g\<rparr>
      in if newLabel \<notin> set (vertices g)
         then
           let newIndex = length (vertices g)
           in validate
                (s1\<lparr>graph := g\<lparr>vertices := vertices g @ [newLabel]\<rparr>,
                    nodePositions := (nodePositions s)(newLabel \<mapsto> default_position newIndex),
                    steps := [], currentStep := 0\<rparr>)
         else s1)"

definition removeVertex :: "string \<Rightarrow> GraphStore \<Rightarrow> GraphStore" where
  "removeVertex label s =
     (let g = graph s;
          np = nodePositions s;
          s1 = pushToHistory s;
          newPositions = np(label := None)
      in validate
           (s1\<lparr>graph := \<lparr>vertices = filter (\<lambda>x. x \<noteq> label) (vertices g),
                          edges = filter (\<lambda>e. u e \<noteq> label \<and> v e \<noteq> label) (edges g)\<rparr>,
               nodePositions := newPositions,
               steps := [], currentStep := 0,
               selectedVertices := [], selectedEdge := None\<rparr>))"

definition same_pair :: "string \<Rightarrow> string \<Rightarrow> edge \<Rightarrow> bool" where
  "same_pair a b e \<longleftrightarrow> (u e = a \<and> v e = b) \<or> (u e = b \<and> v e = a)"

definition addEdge :: "string \<Rightarrow> string \<Rightarrow> number \<Rightarrow> GraphStore \<Rightarrow> GraphStore" where
  "addEdge a b wt s =
     (let g = graph s;
          exists = list_ex (same_pair a b) (edges g)
      in if \<not> exists \<and> a \<noteq> b
         then
           let s1 = pushToHistory s
           in validate
                (s1\<lparr>graph := g\<lparr>edges := edges g @ [\<lparr>u = a, v = b, w = wt\<rparr>]\<rparr>,
                    steps := [], currentStep := 0\<rparr>)
         else s)"

definition updateEdgeWeight :: "string \<Rightarrow> string \<Rightarrow> number \<Rightarrow> GraphStore \<Rightarrow> GraphStore" where
  "updateEdgeWeight a b newWeight s =
     (let g = graph s;
          s1 = pushToHistory s
      in validate
           (s1\<lparr>graph := g\<lparr>edges := map (\<lambda>e. if same_pair a b e then e\<lparr>w := newWeight\<rparr> else e)
                                       (edges g)\<rparr>,
               steps := [], currentStep := 0\<rparr>))"

definition removeEdge_store :: "string \<Rightarrow> string \<Rightarrow> GraphStore \<Rightarrow> GraphStore" where
  "removeEdge_store a b s =
     (let g = graph s;
          s1 = pushToHistory s
      in validate
           (s1\<lparr>graph := g\<lparr>edges := filter (\<lambda>e. \<not> same_pair a b e) (edges g)\<rparr>,
               steps := [], currentStep := 0\<rparr>))"

definition runAlgorithm :: "GraphStore \<Rightarrow> GraphStore" where
  "runAlgorithm s =
     (if length (validationErrors s) > 0 then s
      else s\<lparr>steps := reverseDelete (graph s), currentStep := 0, isPlaying := False\<rparr>)"

section \<open>Auxiliary notions for the statements\<close>

subsection \<open>Validation\<close>

text \<open>The errors collected by the four scans that precede the connectivity check.\<close>

definition scan_errors :: "Graph \<Rightarrow> ValidationError list" where
  "scan_errors g =
     invalid_vertex_scan (vertices g) (edges g)
       (weight_scan (edges g) (self_loop_scan (edges g) (duplicate_scan (edges g) [] [])))"

text \<open>What each of the three per-edge scans pushes for one edge.\<close>

definition self_loop_errors :: "edge \<Rightarrow> ValidationError list" where
  "self_loop_errors e =
     (if u e = v e then [mk_error self_loop (''Self-loop detected at vertex '' @ u e) (Some e)]
      else [])"

definition weight_errors :: "edge \<Rightarrow> ValidationError list" where
  "weight_errors e =
     (if isNaN (w e) then [mk_error missing_weight (''Missing weight for edge '' @ edge_name e) (Some e)]
      else if num_neg (w e)
      then [mk_error negative_weight
              (''Negative weight found for edge '' @ edge_name e @ '': '' @ show_number (w e)) (Some e)]
      else [])"

definition missing_endpoint_errors :: "string list \<Rightarrow> edge \<Rightarrow> ValidationError list" where
  "missing_endpoint_errors vs e =
     map (\<lambda>x. mk_error multi_edge (''Edge references non-existent vertex: '' @ x) (Some e))
       (filter (\<lambda>x. x \<notin> set vs) [u e, v e])"

text \<open>Every endpoint of every edge is a vertex of the graph.\<close>

definition no_dangling :: "Graph \<Rightarrow> bool" where
  "no_dangling g \<longleftrightarrow> list_all (\<lambda>e. u e \<in> set (vertices g) \<and> v e \<in> set (vertices g)) (edges g)"

text \<open>No two edges of the list are equal under \<open>edgesEqual\<close>.\<close>

fun no_parallel :: "edge list \<Rightarrow> bool" where
  "no_parallel [] = True"
| "no_parallel (e # es) = ((\<forall>e' \<in> set es. \<not> edgesEqual e' e) \<and> no_parallel es)"

subsection \<open>Reachability\<close>

text \<open>
  The relation that the adjacency map represents: from a vertex of the graph to the other
  endpoint of each edge at it.
\<close>

definition edge_nbrs :: "edge list \<Rightarrow> string \<Rightarrow> string set" where
  "edge_nbrs es x = {y. \<exists>e \<in> set es. (u e = x \<and> v e = y) \<or> (v e = x \<and> u e = y)}"

definition graph_rel :: "Graph \<Rightarrow> (string \<times> string) set" where
  "graph_rel g = {(x, y). x \<in> set (vertices g) \<and> y \<in> edge_nbrs (edges g) x}"

definition adj_rel :: "adjList \<Rightarrow> (string \<times> string) set" where
  "adj_rel al = {(x, y). y \<in> set (neighbors al x)}"

text \<open>Any two vertices of the graph are joined by a path.\<close>

definition connected_graph :: "Graph \<Rightarrow> bool" where
  "connected_graph g \<longleftrightarrow>
     (\<forall>x \<in> set (vertices g). \<forall>y \<in> set (vertices g). (x, y) \<in> (graph_rel g)\<^sup>*)"

text \<open>
  The undirected edge relation of an edge list, its connected components within a vertex
  set, and edge lists in which each edge joins two vertices that the later edges leave
  apart.
\<close>

definition edge_rel :: "edge list \<Rightarrow> (string \<times> string) set" where
  "edge_rel es = {(x, y). y \<in> edge_nbrs es x}"

definition comps :: "string set \<Rightarrow> edge list \<Rightarrow> string set set" where
  "comps V es = (\<lambda>x. (edge_rel es)\<^sup>* `` {x}) ` V"

fun forest :: "edge list \<Rightarrow> bool" where
  "forest [] = True"
| "forest (e # es) = ((u e, v e) \<notin> (edge_rel es)\<^sup>* \<and> forest es)"

subsection \<open>The label generator as described\<close>

text \<open>
  The generator in the spec's words: the empty graph yields \<open>A\<close>; otherwise the
  single-character labels are sorted and the letter after the greatest one is returned if
  it is within \<open>A\<close> to \<open>Z\<close>; otherwise \<open>A\<close> followed by the vertex count.
\<close>

definition nextVertexLabel_spec :: "Graph \<Rightarrow> string" where
  "nextVertexLabel_spec g =
     (if vertices g = [] then ''A''
      else
        let singles = sort (filter (\<lambda>l. length l = 1) (vertices g));
            fallback = ''A'' @ show_nat (length (vertices g))
        in if singles = [] then fallback
           else
             let nextCode = (of_char (last singles ! 0) :: nat) + 1
             in if of_char CHR ''A'' \<le> nextCode \<and> nextCode \<le> of_char CHR ''Z''
                then [char_of nextCode] else fallback)"

section \<open>Example graphs and states\<close>

text \<open>The "Triangle" example of \<open>lib/examples.ts\<close>, and the same graph with its vertices and edges reordered.\<close>

definition triangle :: Graph where
  "triangle =
     \<lparr>vertices = [''A'', ''B'', ''C''],
      edges = [\<lparr>u = ''A'', v = ''B'', w = Num 3\<rparr>,
               \<lparr>u = ''B'', v = ''C'', w = Num 4\<rparr>,
               \<lparr>u = ''A'', v = ''C'', w = Num 5\<rparr>]\<rparr>"

definition triangle_permuted :: Graph where
  "triangle_permuted =
     \<lparr>vertices = [''C'', ''A'', ''B''],
      edges = [\<lparr>u = ''A'', v = ''C'', w = Num 5\<rparr>,
               \<lparr>u = ''A'', v = ''B'', w = Num 3\<rparr>,
               \<lparr>u = ''B'', v = ''C'', w = Num 4\<rparr>]\<rparr>"

text \<open>Four vertices whose labels contain the separator of the duplicate scan's keys.\<close>

definition hyphen_graph :: Graph where
  "hyphen_graph =
     \<lparr>vertices = [''A-B'', ''C'', ''A'', ''B-C''],
      edges = [\<lparr>u = ''A-B'', v = ''C'', w = Num 1\<rparr>, \<lparr>u = ''A'', v = ''B-C'', w = Num 1\<rparr>]\<rparr>"

text \<open>Two vertices and no edge.\<close>

definition two_isolated :: Graph where
  "two_isolated = \<lparr>vertices = [''A'', ''B''], edges = []\<rparr>"

text \<open>An edge to a vertex that does not exist, and an edge in a graph without vertices.\<close>

definition dangling_graph :: Graph where
  "dangling_graph = \<lparr>vertices = [''A''], edges = [\<lparr>u = ''A'', v = ''X'', w = Num 1\<rparr>]\<rparr>"

definition no_vertex_graph :: Graph where
  "no_vertex_graph = \<lparr>vertices = [], edges = [\<lparr>u = ''A'', v = ''B'', w = Num 1\<rparr>]\<rparr>"



text \<open>
  A session: vertices \<open>A\<close> and \<open>B\<close> are added, the edge \<open>A-B\<close> is added, and that is undone.
\<close>

definition edited_store :: GraphStore where
  "edited_store =
     addEdge ''A'' ''B'' (Num 1) (addVertex (Some ''B'') (addVertex (Some ''A'') initialStore))"

definition undone_store :: GraphStore where
  "undone_store = undo edited_store"

text \<open>A graph whose vertices were entered as \<open>B\<close>, then \<open>A\<close>.\<close>

definition unsorted_graph :: Graph where
  "unsorted_graph = \<lparr>vertices = [''B'', ''A''], edges = []\<rparr>"

definition unsorted_store :: GraphStore where
  "unsorted_store = addVertex (Some ''A'') (addVertex (Some ''B'') initialStore)"

text \<open>
  The labels left after adding 27 vertices through the generator (\<open>A\<close> to \<open>Z\<close>, then
  \<open>A26\<close>) and removing \<open>B\<close> to \<open>Z\<close>.
\<close>

definition sparse_graph :: Graph where
  "sparse_graph = \<lparr>vertices = [''A'', ''A26''], edges = []\<rparr>"

section \<open>Basic facts\<close>

lemma edge_copy [simp]: "\<lparr>u = u e, v = v e, w = w e\<rparr> = e"
  by (cases e) simp

lemma cloneGraph_id [simp]: "cloneGraph g = g"
  by (cases g) (simp add: cloneGraph_def)

section \<open>The triangle scenario\<close>

text \<open>
  Claim C3. On the triangle \<open>A-B:3, B-C:4, A-C:5\<close> the trace opens with the introductory
  step on \<open>A-C\<close>, considers \<open>A-C\<close> and deletes it, considers \<open>B-C\<close> and keeps it, considers
  \<open>A-B\<close> and keeps it, and completes; the final graph has the edges \<open>A-B:3\<close> and \<open>B-C:4\<close>,
  of total weight 7.
\<close>

theorem triangle_trace:
  "map (\<lambda>s. (step_type s, step_edge s)) (reverseDelete triangle) =
     [(Consider, \<lparr>u = ''A'', v = ''C'', w = Num 5\<rparr>),
      (Consider, \<lparr>u = ''A'', v = ''C'', w = Num 5\<rparr>),
      (Delete, \<lparr>u = ''A'', v = ''C'', w = Num 5\<rparr>),
      (Consider, \<lparr>u = ''B'', v = ''C'', w = Num 4\<rparr>),
      (Keep, \<lparr>u = ''B'', v = ''C'', w = Num 4\<rparr>),
      (Consider, \<lparr>u = ''A'', v = ''B'', w = Num 3\<rparr>),
      (Keep, \<lparr>u = ''A'', v = ''B'', w = Num 3\<rparr>),
      (Complete, \<lparr>u = ''A'', v = ''B'', w = Num 3\<rparr>)]
   \<and> snapshot (last (reverseDelete triangle)) =
       \<lparr>vertices = [''A'', ''B'', ''C''],
        edges = [\<lparr>u = ''A'', v = ''B'', w = Num 3\<rparr>, \<lparr>u = ''B'', v = ''C'', w = Num 4\<rparr>]\<rparr>
   \<and> getTotalWeight (snapshot (last (reverseDelete triangle))) = Num 7
   \<and> explanation (last (reverseDelete triangle)) =
       ''Algorithm complete! The MST has 2 edges with total weight 7.''"
  by code_simp

section \<open>Keys of the duplicate scan\<close>

text \<open>
  Claim C10. The two edges of \<open>hyphen_graph\<close>, \<open>('A-B', 'C')\<close> and \<open>('A', 'B-C')\<close>, are
  distinct under \<open>edgesEqual\<close>, yet both have the key \<open>A-B-C\<close>, and validation reports
  the second as a duplicate edge.
\<close>

theorem hyphen_false_duplicate:
  "\<not> edgesEqual (edges hyphen_graph ! 0) (edges hyphen_graph ! 1)
   \<and> \<not> edgesEqual (edges hyphen_graph ! 1) (edges hyphen_graph ! 0)
   \<and> edge_name (edges hyphen_graph ! 0) = edge_name (edges hyphen_graph ! 1)
   \<and> validateGraph hyphen_graph =
       [mk_error duplicate_edge ''Duplicate edge found: A-B-C''
          (Some \<lparr>u = ''A'', v = ''B-C'', w = Num 1\<rparr>)]"
  by code_simp

section \<open>The scans of validation\<close>

lemma duplicate_scan_append:
  "duplicate_scan es seen errs = errs @ duplicate_scan es seen []"
proof (induction es arbitrary: seen errs)
  case Nil
  show ?case by simp
next
  case (Cons e es)
  let ?dup = "mk_error duplicate_edge (''Duplicate edge found: '' @ edge_name e) (Some e)"
  let ?seen' = "List.insert (v e @ ''-'' @ u e) (List.insert (u e @ ''-'' @ v e) seen)"
  show ?case
  proof (cases "u e @ ''-'' @ v e \<in> set seen \<or> v e @ ''-'' @ u e \<in> set seen")
    case True
    then have step: "duplicate_scan (e # es) seen xs = duplicate_scan es seen (xs @ [?dup])" for xs
      by (simp add: Let_def)
    show ?thesis
      unfolding step using Cons.IH [of seen "errs @ [?dup]"] Cons.IH [of seen "[?dup]"] by simp
  next
    case False
    then have step: "duplicate_scan (e # es) seen xs = duplicate_scan es ?seen' xs" for xs
      by (simp add: Let_def)
    show ?thesis unfolding step by (rule Cons.IH)
  qed
qed

lemma duplicate_scan_types:
  "er \<in> set (duplicate_scan es seen []) \<Longrightarrow> err_type er = duplicate_edge"
proof (induction es arbitrary: seen)
  case Nil
  then show ?case by simp
next
  case (Cons e es)
  show ?case
  proof (cases "u e @ ''-'' @ v e \<in> set seen \<or> v e @ ''-'' @ u e \<in> set seen")
    case True
    then have "duplicate_scan (e # es) seen [] =
      mk_error duplicate_edge (''Duplicate edge found: '' @ edge_name e) (Some e) # duplicate_scan es seen []"
      using duplicate_scan_append [of es seen "[mk_error duplicate_edge (''Duplicate edge found: '' @ edge_name e) (Some e)]"]
      by (simp add: Let_def)
    with Cons show ?thesis by (auto simp: mk_error_def)
  next
    case False
    with Cons show ?thesis by (simp add: Let_def)
  qed
qed

lemma self_loop_scan_eq:
  "self_loop_scan es errs = errs @ concat (map self_loop_errors es)"
  by (induction es arbitrary: errs) (simp_all add: self_loop_errors_def)

lemma self_loop_errors_types:
  "er \<in> set (self_loop_errors e) \<Longrightarrow> err_type er = self_loop"
  by (auto simp: self_loop_errors_def mk_error_def split: if_splits)

lemma weight_scan_eq:
  "weight_scan es errs = errs @ concat (map weight_errors es)"
  by (induction es arbitrary: errs) (simp_all add: weight_errors_def)

lemma weight_errors_types:
  "er \<in> set (weight_errors e) \<Longrightarrow> err_type er = missing_weight \<or> err_type er = negative_weight"
  by (auto simp: weight_errors_def mk_error_def split: if_splits)

lemma invalid_vertex_scan_eq:
  "invalid_vertex_scan vs es errs = errs @ concat (map (missing_endpoint_errors vs) es)"
  by (induction es arbitrary: errs) (simp_all add: Let_def missing_endpoint_errors_def)

lemma scan_errors_eq:
  "scan_errors g =
     duplicate_scan (edges g) [] [] @ concat (map self_loop_errors (edges g))
       @ concat (map weight_errors (edges g))
       @ concat (map (missing_endpoint_errors (vertices g)) (edges g))"
  by (simp add: scan_errors_def invalid_vertex_scan_eq weight_scan_eq self_loop_scan_eq)

lemma validateGraph_eq:
  "vertices g \<noteq> [] \<Longrightarrow>
     validateGraph g =
       (if scan_errors g = [] \<and> \<not> isConnected g
        then [mk_error disconnected
                ''Graph is not connected. All vertices must be reachable from each other.'' None]
        else scan_errors g)"
  by (simp add: validateGraph_def scan_errors_def Let_def)

lemma missing_endpoint_errors_types:
  "er \<in> set (missing_endpoint_errors vs e) \<Longrightarrow> err_type er = multi_edge"
  by (auto simp: missing_endpoint_errors_def mk_error_def split: if_splits)

lemma scan_errors_not_disconnected:
  "er \<in> set (scan_errors g) \<Longrightarrow> err_type er \<noteq> disconnected"
  unfolding scan_errors_eq
  by (auto dest: duplicate_scan_types self_loop_errors_types weight_errors_types
      missing_endpoint_errors_types)

text \<open>
  Claim C4. On a graph with at least one vertex, the connectivity check contributes only
  when the duplicate, self-loop, weight and invalid-vertex scans found nothing: if they
  found errors, the result is exactly those errors, none of which is of kind
  \<open>disconnected\<close>; if they found none and the graph is not connected, the result is the
  single \<open>disconnected\<close> error.
\<close>

theorem validate_connectivity_gate:
  "vertices g \<noteq> [] \<Longrightarrow>
     (scan_errors g \<noteq> [] \<longrightarrow> validateGraph g = scan_errors g)
     \<and> (scan_errors g = [] \<and> \<not> isConnected g \<longrightarrow>
          validateGraph g =
            [mk_error disconnected
               ''Graph is not connected. All vertices must be reachable from each other.'' None])
     \<and> (\<forall>er \<in> set (scan_errors g). err_type er \<noteq> disconnected)"
  using scan_errors_not_disconnected [of _ g] by (simp add: validateGraph_eq)

theorem validate_connectivity_gate_witness:
  "vertices two_isolated \<noteq> [] \<and> scan_errors two_isolated = [] \<and> \<not> isConnected two_isolated
   \<and> validateGraph two_isolated =
       [mk_error disconnected
          ''Graph is not connected. All vertices must be reachable from each other.'' None]
   \<and> vertices dangling_graph \<noteq> [] \<and> scan_errors dangling_graph \<noteq> []
   \<and> validateGraph dangling_graph = scan_errors dangling_graph"
proof -
  have a: "vertices two_isolated \<noteq> []" by code_simp
  have b: "scan_errors two_isolated = []" by code_simp
  have c: "\<not> isConnected two_isolated" by code_simp
  have d: "vertices dangling_graph \<noteq> []" by code_simp
  have e: "scan_errors dangling_graph \<noteq> []" by code_simp
  show ?thesis
    using validate_connectivity_gate [OF a] validate_connectivity_gate [OF d] a b c d e
    by simp
qed

lemma filter_multi_edge_others:
  "\<forall>er \<in> set xs. err_type er \<noteq> multi_edge \<Longrightarrow> filter (\<lambda>er. err_type er = multi_edge) xs = []"
  by (induction xs) auto

lemma filter_multi_edge_all:
  "\<forall>er \<in> set xs. err_type er = multi_edge \<Longrightarrow> filter (\<lambda>er. err_type er = multi_edge) xs = xs"
  by (induction xs) auto

lemma multi_edge_errors_nonempty:
  assumes ne: "vertices g \<noteq> []"
  shows "filter (\<lambda>er. err_type er = multi_edge) (validateGraph g) =
           concat (map (missing_endpoint_errors (vertices g)) (edges g))"
proof -
  let ?D = "concat (map (missing_endpoint_errors (vertices g)) (edges g))"
  let ?disc = "mk_error disconnected
                ''Graph is not connected. All vertices must be reachable from each other.'' None"
  have 1: "filter (\<lambda>er. err_type er = multi_edge) (duplicate_scan (edges g) [] []) = []"
    by (rule filter_multi_edge_others) (auto dest: duplicate_scan_types)
  have 2: "filter (\<lambda>er. err_type er = multi_edge) (concat (map self_loop_errors (edges g))) = []"
    by (rule filter_multi_edge_others) (auto dest: self_loop_errors_types)
  have 3: "filter (\<lambda>er. err_type er = multi_edge) (concat (map weight_errors (edges g))) = []"
    by (rule filter_multi_edge_others) (auto dest: weight_errors_types)
  have 4: "filter (\<lambda>er. err_type er = multi_edge) ?D = ?D"
    by (rule filter_multi_edge_all) (auto dest: missing_endpoint_errors_types)
  have scan: "filter (\<lambda>er. err_type er = multi_edge) (scan_errors g) = ?D"
    by (simp add: scan_errors_eq 1 2 3 4)
  show ?thesis
  proof (cases "scan_errors g = [] \<and> \<not> isConnected g")
    case True
    then have "validateGraph g = [?disc]" using ne by (simp add: validateGraph_eq)
    moreover have "?D = []" using scan True by simp
    ultimately show ?thesis by (simp add: mk_error_def)
  next
    case False
    then have "validateGraph g = scan_errors g" using ne by (simp add: validateGraph_eq)
    then show ?thesis using scan by simp
  qed
qed

lemma validateGraph_no_vertices:
  "vertices g = [] \<Longrightarrow>
     validateGraph g = [mk_error disconnected ''Graph must have at least one vertex'' None]"
  by (simp add: validateGraph_def)

text \<open>
  Claim C9, as amended. On a graph with at least one vertex, the errors of kind
  \<open>multi_edge\<close> are, in edge order, one per endpoint that is missing from \<open>vertices\<close>
  (first \<open>u\<close>, then \<open>v\<close>), each carrying its edge. The source has no kind named
  \<open>dangling_reference\<close>. On a graph with no vertices the result is the single
  \<open>disconnected\<close> error, whatever the edges are.
\<close>

theorem dangling_endpoints_reported:
  "(vertices g \<noteq> [] \<longrightarrow>
      filter (\<lambda>er. err_type er = multi_edge) (validateGraph g) =
        concat (map (missing_endpoint_errors (vertices g)) (edges g)))
   \<and> (vertices g = [] \<longrightarrow>
      validateGraph g = [mk_error disconnected ''Graph must have at least one vertex'' None])"
  using multi_edge_errors_nonempty [of g] validateGraph_no_vertices [of g] by blast

theorem dangling_endpoints_reported_witness:
  "vertices dangling_graph \<noteq> [] \<and>
   filter (\<lambda>er. err_type er = multi_edge) (validateGraph dangling_graph) =
     [mk_error multi_edge ''Edge references non-existent vertex: X''
        (Some \<lparr>u = ''A'', v = ''X'', w = Num 1\<rparr>)]
   \<and> vertices no_vertex_graph = []
   \<and> validateGraph no_vertex_graph =
       [mk_error disconnected ''Graph must have at least one vertex'' None]"
proof -
  have a: "vertices dangling_graph \<noteq> []" by code_simp
  have b: "concat (map (missing_endpoint_errors (vertices dangling_graph)) (edges dangling_graph))
    = [mk_error multi_edge ''Edge references non-existent vertex: X''
        (Some \<lparr>u = ''A'', v = ''X'', w = Num 1\<rparr>)]" by code_simp
  have c: "vertices no_vertex_graph = []" by code_simp
  show ?thesis
    using dangling_endpoints_reported [of dangling_graph]
      dangling_endpoints_reported [of no_vertex_graph] a b c
    by simp
qed

text \<open>
  The claim as stated fails: the kind reported for a missing endpoint is tagged
  \<open>multi_edge\<close>, and a graph without vertices gets the single \<open>disconnected\<close> error
  whatever its edges refer to.
\<close>

theorem dangling_kind_counterexample:
  "validateGraph dangling_graph =
     [mk_error multi_edge ''Edge references non-existent vertex: X''
        (Some \<lparr>u = ''A'', v = ''X'', w = Num 1\<rparr>)]
   \<and> type_tag (err_type (validateGraph dangling_graph ! 0)) \<noteq> ''dangling_reference''
   \<and> validateGraph no_vertex_graph =
       [mk_error disconnected ''Graph must have at least one vertex'' None]"
  by code_simp

section \<open>History\<close>

lemma validate_fields [simp]:
  "graph (validate s) = graph s" "nodePositions (validate s) = nodePositions s"
  "history (validate s) = history s" "future (validate s) = future s"
  "steps (validate s) = steps s"
  by (simp_all add: validate_def)

lemma pushToHistory_idle:
  "steps s = [] \<Longrightarrow>
     pushToHistory s =
       s\<lparr>history := history s @ [\<lparr>h_graph = graph s, h_nodePositions = nodePositions s\<rparr>],
         future := []\<rparr>"
  by (simp add: pushToHistory_def)

lemma pushToHistory_trace: "steps s \<noteq> [] \<Longrightarrow> pushToHistory s = s"
  by (simp add: pushToHistory_def)

text \<open>
  The four siblings of \<open>addVertex\<close> push the state they find, and clear the redo stack,
  unless a trace is active.
\<close>

lemma removeVertex_history:
  "history (removeVertex l s) =
     (if steps s = [] then history s @ [\<lparr>h_graph = graph s, h_nodePositions = nodePositions s\<rparr>]
      else history s)"
  "future (removeVertex l s) = (if steps s = [] then [] else future s)"
  by (simp_all add: removeVertex_def Let_def pushToHistory_def)

lemma addEdge_history:
  "\<not> list_ex (same_pair a b) (edges (graph s)) \<Longrightarrow> a \<noteq> b \<Longrightarrow>
   history (addEdge a b wt s) =
     (if steps s = [] then history s @ [\<lparr>h_graph = graph s, h_nodePositions = nodePositions s\<rparr>]
      else history s)"
  "\<not> list_ex (same_pair a b) (edges (graph s)) \<Longrightarrow> a \<noteq> b \<Longrightarrow>
   future (addEdge a b wt s) = (if steps s = [] then [] else future s)"
  by (simp_all add: addEdge_def Let_def pushToHistory_def)

lemma updateEdgeWeight_history:
  "history (updateEdgeWeight a b wt s) =
     (if steps s = [] then history s @ [\<lparr>h_graph = graph s, h_nodePositions = nodePositions s\<rparr>]
      else history s)"
  "future (updateEdgeWeight a b wt s) = (if steps s = [] then [] else future s)"
  by (simp_all add: updateEdgeWeight_def Let_def pushToHistory_def)

lemma removeEdge_store_history:
  "history (removeEdge_store a b s) =
     (if steps s = [] then history s @ [\<lparr>h_graph = graph s, h_nodePositions = nodePositions s\<rparr>]
      else history s)"
  "future (removeEdge_store a b s) = (if steps s = [] then [] else future s)"
  by (simp_all add: removeEdge_store_def Let_def pushToHistory_def)

lemma addVertex_history:
  "history (addVertex label s) = history s" "future (addVertex label s) = future s"
  by (simp_all add: addVertex_def Let_def split: prod.splits option.splits)

text \<open>
  Claim C2 fails for \<open>addVertex\<close>: it never touches the undo or the redo stack. After the
  undo of \<open>undone_store\<close> no trace is active and the redo stack holds an entry; adding a
  vertex then changes the graph, pushes nothing and leaves the redo stack as it was.
\<close>

theorem addVertex_skips_history:
  "steps undone_store = [] \<and> future undone_store \<noteq> []
   \<and> vertices (graph undone_store) = [''A'', ''B'']
   \<and> vertices (graph (addVertex None undone_store)) = [''A'', ''B'', ''C'']
   \<and> history (addVertex None undone_store) = history undone_store
   \<and> future (addVertex None undone_store) = future undone_store
   \<and> vertices (graph (addVertex None initialStore)) = [''A'']
   \<and> history (addVertex None initialStore) = []"
proof -
  have "steps undone_store = []" by code_simp
  moreover have "future undone_store \<noteq> []" by code_simp
  moreover have "vertices (graph undone_store) = [''A'', ''B'']" by code_simp
  moreover have "vertices (graph (addVertex None undone_store)) = [''A'', ''B'', ''C'']" by code_simp
  moreover have "vertices (graph (addVertex None initialStore)) = [''A'']" by code_simp
  moreover have "history (addVertex None initialStore) = []" by code_simp
  ultimately show ?thesis by (simp add: addVertex_history)
qed

lemma take_all_but_last:
  "xs \<noteq> [] \<Longrightarrow> take (length xs - Suc 0) xs @ [xs ! (length xs - Suc 0)] = xs"
  by (metis One_nat_def append_butlast_last_id butlast_conv_take last_conv_nth)

text \<open>
  Claim C5. With a non-empty undo stack and no active trace, \<open>undo\<close> followed by \<open>redo\<close>
  gives back the graph and the node positions, and also both stacks.
\<close>

theorem undo_redo_restores:
  "history s \<noteq> [] \<Longrightarrow> steps s = [] \<Longrightarrow>
     graph (redo (undo s)) = graph s \<and> nodePositions (redo (undo s)) = nodePositions s
     \<and> history (redo (undo s)) = history s \<and> future (redo (undo s)) = future s"
proof -
  assume h: "history s \<noteq> []" and t: "steps s = []"
  let ?prev = "history s ! (length (history s) - 1)"
  let ?cur = "\<lparr>h_graph = graph s, h_nodePositions = nodePositions s\<rparr>"
  let ?s1 = "s\<lparr>graph := h_graph ?prev, nodePositions := h_nodePositions ?prev,
               history := take (length (history s) - 1) (history s),
               future := ?cur # future s, steps := [], currentStep := 0,
               selectedVertices := [], selectedEdge := None\<rparr>"
  have u: "undo s = validate ?s1"
    using h t by (simp add: undo_def Let_def)
  have r: "redo (validate ?s1) =
             validate ((validate ?s1)\<lparr>graph := graph s, nodePositions := nodePositions s,
               history := take (length (history s) - 1) (history s) @ [?prev],
               future := future s, steps := [], currentStep := 0,
               selectedVertices := [], selectedEdge := None\<rparr>)"
    by (simp add: redo_def Let_def validate_def)
  show ?thesis
    unfolding u r using h by (simp add: take_all_but_last)
qed

theorem undo_redo_restores_witness:
  "history edited_store \<noteq> [] \<and> steps edited_store = []
   \<and> graph (redo (undo edited_store)) = graph edited_store
   \<and> nodePositions (redo (undo edited_store)) = nodePositions edited_store"
proof -
  have a: "history edited_store \<noteq> []" by code_simp
  have b: "steps edited_store = []" by code_simp
  show ?thesis using undo_redo_restores [OF a b] a b by simp
qed

text \<open>
  Claim C8 fails for the label generator: it sorts the \<open>vertices\<close> array of the graph it
  is given. On a graph entered as \<open>B\<close>, \<open>A\<close> the call leaves \<open>A\<close>, \<open>B\<close> behind, and
  \<open>addVertex\<close> without a label continues from the reordered array.
\<close>

theorem getNextVertexLabel_reorders_vertices:
  "getNextVertexLabel unsorted_graph = (''C'', \<lparr>vertices = [''A'', ''B''], edges = []\<rparr>)
   \<and> vertices (graph unsorted_store) = [''B'', ''A'']
   \<and> vertices (graph (addVertex None unsorted_store)) = [''A'', ''B'', ''C'']"
  by code_simp

section \<open>Label generation\<close>

text \<open>
  Where every label is a single character from \<open>A\<close> on, the code and the description
  agree.
\<close>

lemma getNextVertexLabel_letters:
  assumes "\<forall>l \<in> set (vertices g). length l = 1 \<and> of_char CHR ''A'' \<le> (of_char (l ! 0) :: nat)"
  shows "fst (getNextVertexLabel g) = nextVertexLabel_spec g"
proof (cases "vertices g = []")
  case True
  then show ?thesis by (simp add: getNextVertexLabel_def nextVertexLabel_spec_def)
next
  case False
  let ?labels = "sort (vertices g)"
  let ?c = "of_char (last ?labels ! 0) :: nat"
  let ?result = "if ?c + 1 \<le> of_char CHR ''Z'' then [char_of (?c + 1)]
                 else ''A'' @ show_nat (length (vertices g))"
  have all: "filter (\<lambda>l. length l = Suc 0) (vertices g) = vertices g"
    using assms by (simp add: filter_id_conv)
  have ne: "?labels \<noteq> []" using False by (metis length_0_conv length_sort)
  then have lst: "?labels ! (length (vertices g) - Suc 0) = last ?labels"
    by (simp add: last_conv_nth)
  have "last ?labels \<in> set (vertices g)"
    using ne by (metis last_in_set set_sort)
  then have one: "length (last ?labels) = Suc 0"
    and up: "of_char CHR ''A'' \<le> ?c"
    using assms by auto
  have code: "fst (getNextVertexLabel g) = ?result"
    using False ne one by (simp add: getNextVertexLabel_def Let_def lst)
  have spec: "nextVertexLabel_spec g = ?result"
    using False ne up by (simp add: nextVertexLabel_spec_def Let_def all)
  show ?thesis by (simp only: code spec)
qed

text \<open>
  Claim C7 fails on \<open>sparse_graph\<close>: the only single-character label is \<open>A\<close> and the
  letters \<open>B\<close> to \<open>Z\<close> are free, so the label described is \<open>B\<close>; the code looks at the
  greatest of all labels, \<open>A26\<close>, and returns \<open>A2\<close>.
\<close>

theorem getNextVertexLabel_skips_free_letters:
  "fst (getNextVertexLabel sparse_graph) = ''A2'' \<and> nextVertexLabel_spec sparse_graph = ''B''"
  by code_simp

section \<open>Depth-first search\<close>

lemma dfs_visited_subset: "set visited \<subseteq> set (dfs al todo visited)"
  by (induction al todo visited rule: dfs.induct) auto

lemma dfs_todo_subset: "set todo \<subseteq> set (dfs al todo visited)"
proof (induction al todo visited rule: dfs.induct)
  case (1 al visited)
  show ?case by simp
next
  case (2 al x todo visited)
  show ?case
  proof (cases "x \<in> set visited")
    case True
    with 2 dfs_visited_subset [of visited al todo] show ?thesis by auto
  next
    case False
    with 2 dfs_visited_subset [of "visited @ [x]" al "neighbors al x @ todo"] show ?thesis by auto
  qed
qed

lemma dfs_closed:
  "adj_rel al `` set visited \<subseteq> set todo \<union> set visited \<Longrightarrow>
     adj_rel al `` set (dfs al todo visited) \<subseteq> set (dfs al todo visited)"
proof (induction al todo visited rule: dfs.induct)
  case (1 al visited)
  then show ?case by simp
next
  case (2 al x todo visited)
  show ?case
  proof (cases "x \<in> set visited")
    case True
    then have "adj_rel al `` set visited \<subseteq> set todo \<union> set visited"
      using "2.prems" by auto
    with 2 True show ?thesis by simp
  next
    case False
    have "adj_rel al `` set (visited @ [x]) \<subseteq> set (neighbors al x @ todo) \<union> set (visited @ [x])"
      using "2.prems" by (auto simp: adj_rel_def)
    with 2 False show ?thesis by simp
  qed
qed

lemma dfs_sound:
  "set (dfs al todo visited) \<subseteq> (adj_rel al)\<^sup>* `` set todo \<union> set visited"
proof (induction al todo visited rule: dfs.induct)
  case (1 al visited)
  show ?case by simp
next
  case (2 al x todo visited)
  show ?case
  proof (cases "x \<in> set visited")
    case True
    with 2 show ?thesis by auto
  next
    case False
    have nb: "(adj_rel al)\<^sup>* `` set (neighbors al x) \<subseteq> (adj_rel al)\<^sup>* `` {x}"
      by (auto simp: adj_rel_def intro: converse_rtrancl_into_rtrancl)
    have "set (dfs al (neighbors al x @ todo) (visited @ [x]))
            \<subseteq> (adj_rel al)\<^sup>* `` set (neighbors al x @ todo) \<union> set (visited @ [x])"
      using 2 False by simp
    also have "\<dots> \<subseteq> (adj_rel al)\<^sup>* `` {x} \<union> (adj_rel al)\<^sup>* `` set todo \<union> set visited"
      using nb by auto
    also have "\<dots> = (adj_rel al)\<^sup>* `` set (x # todo) \<union> set visited"
      by auto
    finally show ?thesis using False by simp
  qed
qed

lemma closed_rtrancl_Image:
  assumes "r `` X \<subseteq> X"
  shows "r\<^sup>* `` X \<subseteq> X"
proof
  fix y
  assume "y \<in> r\<^sup>* `` X"
  then obtain x where "x \<in> X" and "(x, y) \<in> r\<^sup>*" by auto
  from this(2) this(1) show "y \<in> X"
    by (induction rule: rtrancl_induct) (use assms in auto)
qed

lemma dfs_reach: "set (dfs al [x] []) = (adj_rel al)\<^sup>* `` {x}"
proof
  show "set (dfs al [x] []) \<subseteq> (adj_rel al)\<^sup>* `` {x}"
    using dfs_sound [of al "[x]" "[]"] by simp
next
  have "adj_rel al `` set (dfs al [x] []) \<subseteq> set (dfs al [x] [])"
    by (rule dfs_closed) simp
  then have "(adj_rel al)\<^sup>* `` set (dfs al [x] []) \<subseteq> set (dfs al [x] [])"
    by (rule closed_rtrancl_Image)
  moreover have "x \<in> set (dfs al [x] [])"
    using dfs_todo_subset [of "[x]" al "[]"] by simp
  ultimately show "(adj_rel al)\<^sup>* `` {x} \<subseteq> set (dfs al [x] [])"
    by blast
qed

lemma dfs_distinct: "distinct visited \<Longrightarrow> distinct (dfs al todo visited)"
  by (induction al todo visited rule: dfs.induct) auto

lemma dfs_length: "length (dfs al [x] []) = card ((adj_rel al)\<^sup>* `` {x})"
  using dfs_reach [of al x] dfs_distinct [of "[]" al "[x]"]
  by (metis distinct.simps(1) distinct_card)

section \<open>The adjacency map\<close>

lemma map_of_adj_init_aux:
  "map_of (fold (\<lambda>x al. AList.update x [] al) vs al) =
     (\<lambda>x. if x \<in> set vs then Some [] else map_of al x)"
proof (induction vs arbitrary: al)
  case Nil
  show ?case by simp
next
  case (Cons a vs)
  show ?case by (auto simp: Cons.IH update_conv')
qed

lemma map_of_adj_init: "map_of (adj_init vs) x = (if x \<in> set vs then Some [] else None)"
  by (simp add: adj_init_def map_of_adj_init_aux)

lemma dom_adj_push: "dom (map_of (adj_push a b al)) = dom (map_of al)"
  by (auto simp: adj_push_def update_conv' split: option.splits)

lemma neighbors_adj_push:
  "set (neighbors (adj_push a b al) x) =
     set (neighbors al x) \<union> (if x = a \<and> a \<in> dom (map_of al) then {b} else {})"
proof (cases "map_of al a")
  case None
  then show ?thesis by (simp add: adj_push_def dom_def)
next
  case (Some l)
  then have "adj_push a b al = AList.update a (l @ [b]) al"
    by (simp add: adj_push_def)
  then have "neighbors (adj_push a b al) x = (if x = a then l @ [b] else neighbors al x)"
    by (simp add: neighbors_def update_conv')
  moreover have "a \<in> dom (map_of al)" using Some by (simp add: dom_def)
  moreover have "neighbors al a = l" using Some by (simp add: neighbors_def)
  ultimately show ?thesis by auto
qed

lemma dom_fold_push:
  "dom (map_of (fold (\<lambda>e al. adj_push (v e) (u e) (adj_push (u e) (v e) al)) es al)) =
     dom (map_of al)"
  by (induction es arbitrary: al) (simp_all add: dom_adj_push)

lemma edge_nbrs_Cons:
  "edge_nbrs (e # es) x =
     (if u e = x then {v e} else {}) \<union> (if v e = x then {u e} else {}) \<union> edge_nbrs es x"
  by (auto simp: edge_nbrs_def)

lemma neighbors_fold_push:
  "set (neighbors (fold (\<lambda>e al. adj_push (v e) (u e) (adj_push (u e) (v e) al)) es al) x) =
     set (neighbors al x) \<union> (if x \<in> dom (map_of al) then edge_nbrs es x else {})"
proof (induction es arbitrary: al)
  case Nil
  show ?case by (simp add: edge_nbrs_def)
next
  case (Cons e es)
  show ?case
    by (simp add: Cons.IH dom_adj_push neighbors_adj_push edge_nbrs_Cons)
qed

lemma neighbors_buildAdjList:
  "set (neighbors (buildAdjList g) x) =
     (if x \<in> set (vertices g) then edge_nbrs (edges g) x else {})"
proof -
  have "dom (map_of (adj_init (vertices g))) = set (vertices g)"
    by (auto simp: map_of_adj_init dom_def)
  moreover have "neighbors (adj_init (vertices g)) x = []"
    by (simp add: neighbors_def map_of_adj_init)
  ultimately show ?thesis
    by (simp add: buildAdjList_def neighbors_fold_push)
qed

lemma adj_rel_buildAdjList: "adj_rel (buildAdjList g) = graph_rel g"
  by (auto simp: adj_rel_def graph_rel_def neighbors_buildAdjList split: if_splits)

lemma isConnected_card:
  "isConnected g \<longleftrightarrow>
     length (vertices g) \<le> 1 \<or>
     card ((graph_rel g)\<^sup>* `` {vertices g ! 0}) = length (vertices g)"
  unfolding isConnected_def dfs_length adj_rel_buildAdjList by (auto simp: le_Suc_eq)

section \<open>Connectivity as reachability\<close>

lemma graph_rel_cong:
  "set (vertices g') = set (vertices g) \<Longrightarrow> set (edges g') = set (edges g) \<Longrightarrow>
     graph_rel g' = graph_rel g"
  by (simp add: graph_rel_def edge_nbrs_def)

lemma graph_rel_sym: "no_dangling g \<Longrightarrow> sym (graph_rel g)"
  by (auto simp: sym_def graph_rel_def edge_nbrs_def no_dangling_def list_all_iff)

lemma graph_rel_range: "no_dangling g \<Longrightarrow> (x, y) \<in> graph_rel g \<Longrightarrow> y \<in> set (vertices g)"
  by (auto simp: graph_rel_def edge_nbrs_def no_dangling_def list_all_iff)

lemma reach_in_vertices:
  assumes "no_dangling g" and "x \<in> set (vertices g)"
  shows "(graph_rel g)\<^sup>* `` {x} \<subseteq> set (vertices g)"
proof -
  have "graph_rel g `` set (vertices g) \<subseteq> set (vertices g)"
    using assms(1) by (auto dest: graph_rel_range)
  then have "(graph_rel g)\<^sup>* `` set (vertices g) \<subseteq> set (vertices g)"
    by (rule closed_rtrancl_Image)
  with assms(2) show ?thesis by blast
qed

lemma isConnected_iff:
  assumes nd: "no_dangling g"
  shows "isConnected g \<longleftrightarrow> distinct (vertices g) \<and> connected_graph g"
proof (cases "length (vertices g) \<le> 1")
  case True
  then have "vertices g = [] \<or> (\<exists>a. vertices g = [a])"
    by (cases "vertices g") auto
  then have "distinct (vertices g)" and "connected_graph g"
    by (auto simp: connected_graph_def)
  with True show ?thesis by (simp add: isConnected_card)
next
  case False
  let ?R = "(graph_rel g)\<^sup>*"
  let ?x = "vertices g ! 0"
  have x: "?x \<in> set (vertices g)" using False by (cases "vertices g") auto
  have sub: "?R `` {?x} \<subseteq> set (vertices g)" by (rule reach_in_vertices [OF nd x])
  have symR: "sym ?R" using graph_rel_sym [OF nd] by (rule sym_rtrancl)
  have eq: "isConnected g \<longleftrightarrow> card (?R `` {?x}) = length (vertices g)"
    using False by (simp add: isConnected_card)
  show ?thesis
  proof
    assume "isConnected g"
    then have c: "card (?R `` {?x}) = length (vertices g)" using eq by simp
    have "card (?R `` {?x}) \<le> card (set (vertices g))"
      using sub by (simp add: card_mono)
    moreover have "card (set (vertices g)) \<le> length (vertices g)" by (rule card_length)
    ultimately have cs: "card (set (vertices g)) = length (vertices g)"
      and cr: "card (?R `` {?x}) = card (set (vertices g))" using c by auto
    have d: "distinct (vertices g)" using cs by (rule card_distinct)
    have all: "?R `` {?x} = set (vertices g)"
      using sub cr by (simp add: card_subset_eq)
    have "connected_graph g"
      unfolding connected_graph_def
    proof (intro ballI)
      fix a b
      assume "a \<in> set (vertices g)" and "b \<in> set (vertices g)"
      then have "(?x, a) \<in> ?R" and "(?x, b) \<in> ?R" using all by auto
      moreover from this(1) have "(a, ?x) \<in> ?R" using symR by (auto dest: symD)
      ultimately show "(a, b) \<in> ?R" by (meson rtrancl_trans)
    qed
    with d show "distinct (vertices g) \<and> connected_graph g" by simp
  next
    assume a: "distinct (vertices g) \<and> connected_graph g"
    then have "set (vertices g) \<subseteq> ?R `` {?x}"
      using x by (auto simp: connected_graph_def)
    with sub have "?R `` {?x} = set (vertices g)" by auto
    then have "card (?R `` {?x}) = length (vertices g)"
      using a by (simp add: distinct_card)
    then show "isConnected g" using eq by simp
  qed
qed

text \<open>
  Where \<open>isConnected\<close> does not depend on the order: the edges may be permuted freely,
  and the vertices may be permuted as long as the first one stays, or freely if every
  edge endpoint is a vertex.
\<close>

lemma isConnected_permutation:
  assumes "mset (edges g') = mset (edges g)"
    and "mset (vertices g') = mset (vertices g)"
    and "vertices g' ! 0 = vertices g ! 0 \<or> no_dangling g"
  shows "isConnected g' = isConnected g"
proof -
  have se: "set (edges g') = set (edges g)" using assms(1) by (rule mset_eq_setD)
  have sv: "set (vertices g') = set (vertices g)" using assms(2) by (rule mset_eq_setD)
  have len: "length (vertices g') = length (vertices g)" using assms(2) by (rule mset_eq_length)
  have rel: "graph_rel g' = graph_rel g" using sv se by (rule graph_rel_cong)
  from assms(3) show ?thesis
  proof
    assume "vertices g' ! 0 = vertices g ! 0"
    then show ?thesis by (simp add: isConnected_card rel len)
  next
    assume nd: "no_dangling g"
    then have nd': "no_dangling g'" using se sv by (simp add: no_dangling_def list_all_iff)
    have "distinct (vertices g') = distinct (vertices g)"
      using assms(2) by (rule mset_eq_imp_distinct_iff)
    moreover have "connected_graph g' = connected_graph g"
      by (simp add: connected_graph_def rel sv)
    ultimately show ?thesis by (simp add: isConnected_iff [OF nd] isConnected_iff [OF nd'])
  qed
qed

lemma isConnected_permutation_triangle:
  "mset (edges triangle_permuted) = mset (edges triangle)
   \<and> mset (vertices triangle_permuted) = mset (vertices triangle)
   \<and> no_dangling triangle
   \<and> isConnected triangle_permuted = isConnected triangle"
proof -
  have a: "mset (edges triangle_permuted) = mset (edges triangle)"
    by (simp add: triangle_permuted_def triangle_def)
  have b: "mset (vertices triangle_permuted) = mset (vertices triangle)"
    by (simp add: triangle_permuted_def triangle_def)
  have c: "no_dangling triangle" by code_simp
  show ?thesis using isConnected_permutation [OF a b disjI2 [OF c]] a b c by simp
qed


section \<open>Components and forests\<close>

lemma edge_rel_sym: "sym (edge_rel es)"
  by (auto simp: sym_def edge_rel_def edge_nbrs_def)

lemma edge_rel_Nil: "edge_rel [] = {}"
  by (simp add: edge_rel_def edge_nbrs_def)

lemma edge_rel_Cons: "edge_rel (e # es) = insert (u e, v e) (insert (v e, u e) (edge_rel es))"
  by (auto simp: edge_rel_def edge_nbrs_def)

lemma edge_rel_mono: "set es \<subseteq> set es' \<Longrightarrow> edge_rel es \<subseteq> edge_rel es'"
  by (auto simp: edge_rel_def edge_nbrs_def)

lemma edge_rel_rtrancl_sym: "(x, y) \<in> (edge_rel es)\<^sup>* \<Longrightarrow> (y, x) \<in> (edge_rel es)\<^sup>*"
  using sym_rtrancl [OF edge_rel_sym, of es] by (auto dest: symD)

lemma rtrancl_add_edge_subset:
  assumes "(x, y) \<in> (insert (a, b) (insert (b, a) R))\<^sup>*"
  shows "(x, y) \<in> R\<^sup>* \<or> ((x, a) \<in> R\<^sup>* \<and> (b, y) \<in> R\<^sup>*) \<or> ((x, b) \<in> R\<^sup>* \<and> (a, y) \<in> R\<^sup>*)"
  using assms
proof (induction rule: rtrancl_induct)
  case base
  show ?case by simp
next
  case (step y z)
  from step.hyps(2) consider "(y, z) \<in> R" | "y = a \<and> z = b" | "y = b \<and> z = a"
    by auto
  then show ?case
  proof cases
    case 1
    with step.IH show ?thesis by (meson rtrancl_into_rtrancl)
  next
    case 2
    with step.IH show ?thesis by (meson rtrancl.rtrancl_refl rtrancl_trans)
  next
    case 3
    with step.IH show ?thesis by (meson rtrancl.rtrancl_refl rtrancl_trans)
  qed
qed

lemma rtrancl_add_edge_supset:
  assumes "(x, y) \<in> R\<^sup>* \<or> ((x, a) \<in> R\<^sup>* \<and> (b, y) \<in> R\<^sup>*) \<or> ((x, b) \<in> R\<^sup>* \<and> (a, y) \<in> R\<^sup>*)"
  shows "(x, y) \<in> (insert (a, b) (insert (b, a) R))\<^sup>*"
proof -
  let ?R' = "insert (a, b) (insert (b, a) R)"
  have m: "(p, q) \<in> R\<^sup>* \<Longrightarrow> (p, q) \<in> ?R'\<^sup>*" for p q
    using rtrancl_mono [of R ?R'] by auto
  have ab: "(a, b) \<in> ?R'\<^sup>*" and ba: "(b, a) \<in> ?R'\<^sup>*" by auto
  from assms show ?thesis
    using m ab ba by (meson rtrancl_trans)
qed

lemma class_add_edge:
  assumes sep: "(a, b) \<notin> (edge_rel es)\<^sup>*" and e: "u e = a" "v e = b"
  shows "(edge_rel (e # es))\<^sup>* `` {x} =
           (if (x, a) \<in> (edge_rel es)\<^sup>* \<or> (x, b) \<in> (edge_rel es)\<^sup>*
            then (edge_rel es)\<^sup>* `` {a} \<union> (edge_rel es)\<^sup>* `` {b}
            else (edge_rel es)\<^sup>* `` {x})"
proof -
  let ?E = "(edge_rel es)\<^sup>*"
  have eq: "(x, y) \<in> (edge_rel (e # es))\<^sup>* \<longleftrightarrow>
              (x, y) \<in> ?E \<or> ((x, a) \<in> ?E \<and> (b, y) \<in> ?E) \<or> ((x, b) \<in> ?E \<and> (a, y) \<in> ?E)" for y
    unfolding edge_rel_Cons e
    using rtrancl_add_edge_subset [of x y a b "edge_rel es"]
      rtrancl_add_edge_supset [of x y "edge_rel es" a b] by blast
  have s: "(p, q) \<in> ?E \<Longrightarrow> (q, p) \<in> ?E" for p q by (rule edge_rel_rtrancl_sym)
  have t: "(p, q) \<in> ?E \<Longrightarrow> (q, r) \<in> ?E \<Longrightarrow> (p, r) \<in> ?E" for p q r by (rule rtrancl_trans)
  show ?thesis
  proof (cases "(x, a) \<in> ?E \<or> (x, b) \<in> ?E")
    case True
    have "y \<in> (edge_rel (e # es))\<^sup>* `` {x} \<longleftrightarrow> y \<in> ?E `` {a} \<union> ?E `` {b}" for y
    proof -
      have "(x, y) \<in> (edge_rel (e # es))\<^sup>* \<longleftrightarrow> (a, y) \<in> ?E \<or> (b, y) \<in> ?E"
        unfolding eq [of y] using True sep s t by blast
      then show ?thesis by simp
    qed
    with True show ?thesis by auto
  next
    case False
    have "y \<in> (edge_rel (e # es))\<^sup>* `` {x} \<longleftrightarrow> y \<in> ?E `` {x}" for y
      using False eq [of y] by (simp add: Image_def)
    with False show ?thesis by auto
  qed
qed

lemma class_eq: "(x, y) \<in> (edge_rel es)\<^sup>* \<Longrightarrow> (edge_rel es)\<^sup>* `` {x} = (edge_rel es)\<^sup>* `` {y}"
  using edge_rel_rtrancl_sym [of x y es] by (auto intro: rtrancl_trans)

lemma comps_join:
  assumes fin: "finite V" and a: "a \<in> V" and b: "b \<in> V"
    and sep: "(a, b) \<notin> (edge_rel es)\<^sup>*" and e: "u e = a" "v e = b"
  shows "card (comps V (e # es)) + 1 = card (comps V es)"
proof -
  let ?E = "(edge_rel es)\<^sup>*"
  let ?A = "?E `` {a}" and ?B = "?E `` {b}"
  let ?rest = "comps V es - {?A, ?B}"
  have A: "?A \<in> comps V es" and B: "?B \<in> comps V es"
    using a b by (auto simp: comps_def)
  have AB: "?A \<noteq> ?B"
  proof
    assume "?A = ?B"
    moreover have "b \<in> ?B" by simp
    ultimately have "b \<in> ?A" by simp
    with sep show False by simp
  qed
  have old: "comps V es = insert ?A (insert ?B ?rest)" using A B by auto
  have in_rest: "?E `` {x} \<in> ?rest" if "x \<in> V" "(x, a) \<notin> ?E" "(x, b) \<notin> ?E" for x
  proof -
    have "x \<in> ?E `` {x}" by simp
    moreover have "x \<notin> ?A" "x \<notin> ?B"
      using that edge_rel_rtrancl_sym [of a x es] edge_rel_rtrancl_sym [of b x es] by auto
    ultimately have "?E `` {x} \<noteq> ?A" "?E `` {x} \<noteq> ?B" by metis+
    with that(1) show ?thesis by (auto simp: comps_def)
  qed
  have new: "comps V (e # es) = insert (?A \<union> ?B) ?rest"
  proof (intro equalityI subsetI)
    fix C
    assume "C \<in> comps V (e # es)"
    then obtain x where x: "x \<in> V" and C: "C = (edge_rel (e # es))\<^sup>* `` {x}"
      by (auto simp: comps_def)
    show "C \<in> insert (?A \<union> ?B) ?rest"
    proof (cases "(x, a) \<in> ?E \<or> (x, b) \<in> ?E")
      case True
      then show ?thesis using C class_add_edge [OF sep e, of x] by simp
    next
      case False
      then have "C = ?E `` {x}" using C class_add_edge [OF sep e, of x] by simp
      with False x in_rest [of x] show ?thesis by simp
    qed
  next
    fix C
    assume "C \<in> insert (?A \<union> ?B) ?rest"
    then consider "C = ?A \<union> ?B" | "C \<in> ?rest" by auto
    then show "C \<in> comps V (e # es)"
    proof cases
      case 1
      have "(edge_rel (e # es))\<^sup>* `` {a} = ?A \<union> ?B"
        using class_add_edge [OF sep e, of a] by simp
      with 1 a show ?thesis by (auto simp: comps_def)
    next
      case 2
      then obtain x where x: "x \<in> V" and C: "C = ?E `` {x}" and "C \<noteq> ?A" "C \<noteq> ?B"
        by (auto simp: comps_def)
      then have "(x, a) \<notin> ?E" "(x, b) \<notin> ?E"
        using class_eq [of x a es] class_eq [of x b es] by auto
      then have "(edge_rel (e # es))\<^sup>* `` {x} = C"
        using C class_add_edge [OF sep e, of x] by simp
      with x show ?thesis by (auto simp: comps_def)
    qed
  qed
  have fr: "finite ?rest" using fin by (simp add: comps_def)
  have notin: "?A \<union> ?B \<notin> ?rest"
  proof
    assume "?A \<union> ?B \<in> ?rest"
    then obtain x where "x \<in> V" and C: "?A \<union> ?B = ?E `` {x}" and ne: "?E `` {x} \<noteq> ?A"
      by (auto simp: comps_def)
    have "a \<in> ?E `` {x}" using C by auto
    then have "?E `` {x} = ?A" using class_eq [of x a es] by simp
    with ne show False by simp
  qed
  have "?A \<notin> insert ?B ?rest" using AB by simp
  moreover have "?B \<notin> ?rest" by simp
  ultimately have "card (insert ?A (insert ?B ?rest)) = card ?rest + 2"
    using fr by simp
  then have "card (comps V es) = card ?rest + 2"
    using old by simp
  moreover have "card (comps V (e # es)) = card ?rest + 1"
    using new fr notin by simp
  ultimately show ?thesis by simp
qed

lemma comps_Nil: "card (comps V []) = card V"
proof -
  have "comps V [] = (\<lambda>x. {x}) ` V" by (simp add: comps_def edge_rel_Nil)
  moreover have "inj_on (\<lambda>x. {x}) V" by (simp add: inj_on_def)
  ultimately show ?thesis by (simp add: card_image)
qed

lemma forest_count:
  assumes "finite V"
  shows "forest es \<Longrightarrow> \<forall>e \<in> set es. u e \<in> V \<and> v e \<in> V \<Longrightarrow>
           card (comps V es) + length es = card V"
proof (induction es)
  case Nil
  show ?case by (simp add: comps_Nil)
next
  case (Cons e es)
  have "card (comps V (e # es)) + 1 = card (comps V es)"
    using Cons.prems by (intro comps_join [OF assms, of "u e" "v e"]) auto
  moreover have "card (comps V es) + length es = card V"
    using Cons by simp
  ultimately show ?case by simp
qed

section \<open>Bridges\<close>

lemma graph_rel_edge_rel: "no_dangling g \<Longrightarrow> graph_rel g = edge_rel (edges g)"
  by (auto simp: graph_rel_def edge_rel_def edge_nbrs_def no_dangling_def list_all_iff)

lemma no_dangling_subgraph:
  "no_dangling g \<Longrightarrow> vertices g' = vertices g \<Longrightarrow> set (edges g') \<subseteq> set (edges g) \<Longrightarrow>
     no_dangling g'"
  by (auto simp: no_dangling_def list_all_iff)

lemma isConnected_mono:
  assumes nd: "no_dangling g" and vs: "vertices g' = vertices g"
    and sub: "set (edges g') \<subseteq> set (edges g)" and c: "isConnected g'"
  shows "isConnected g"
proof -
  have nd': "no_dangling g'" using nd vs sub by (rule no_dangling_subgraph)
  have "(edge_rel (edges g'))\<^sup>* \<subseteq> (edge_rel (edges g))\<^sup>*"
    using edge_rel_mono [OF sub] by (rule rtrancl_mono)
  then have "connected_graph g' \<Longrightarrow> connected_graph g"
    unfolding connected_graph_def graph_rel_edge_rel [OF nd] graph_rel_edge_rel [OF nd'] vs
    by blast
  then show ?thesis
    using c by (simp add: isConnected_iff [OF nd] isConnected_iff [OF nd'] vs)
qed

lemma edges_removeEdge [simp]:
  "edges (removeEdge g e) = filter (\<lambda>e'. \<not> edgesEqual e' e) (edges g)"
  "vertices (removeEdge g e) = vertices g"
  by (simp_all add: removeEdge_def)

lemma no_dangling_removeEdge: "no_dangling g \<Longrightarrow> no_dangling (removeEdge g e)"
  by (rule no_dangling_subgraph) auto

lemma bridge_separates:
  assumes nd: "no_dangling g" and c: "isConnected g"
    and br: "\<not> isConnected (removeEdge g e)"
  shows "(u e, v e) \<notin> (edge_rel (filter (\<lambda>e'. \<not> edgesEqual e' e) (edges g)))\<^sup>*"
proof
  let ?rm = "filter (\<lambda>e'. \<not> edgesEqual e' e) (edges g)"
  assume joined: "(u e, v e) \<in> (edge_rel ?rm)\<^sup>*"
  then have joined': "(v e, u e) \<in> (edge_rel ?rm)\<^sup>*" by (rule edge_rel_rtrancl_sym)
  have "edge_rel (edges g) \<subseteq> (edge_rel ?rm)\<^sup>*"
  proof
    fix p
    assume "p \<in> edge_rel (edges g)"
    then obtain e' where e': "e' \<in> set (edges g)"
      and p: "p = (u e', v e') \<or> p = (v e', u e')"
      by (auto simp: edge_rel_def edge_nbrs_def)
    show "p \<in> (edge_rel ?rm)\<^sup>*"
    proof (cases "edgesEqual e' e")
      case True
      then have "p = (u e, v e) \<or> p = (v e, u e)" using p by (auto simp: edgesEqual_def)
      with joined joined' show ?thesis by auto
    next
      case False
      then have "e' \<in> set ?rm" using e' by simp
      then have "p \<in> edge_rel ?rm" using p by (auto simp: edge_rel_def edge_nbrs_def)
      then show ?thesis by auto
    qed
  qed
  then have sub: "(edge_rel (edges g))\<^sup>* \<subseteq> (edge_rel ?rm)\<^sup>*"
    by (rule rtrancl_subset_rtrancl)
  have nd': "no_dangling (removeEdge g e)" using nd by (rule no_dangling_removeEdge)
  have "distinct (vertices g)" and "connected_graph g"
    using c isConnected_iff [OF nd] by auto
  then have "distinct (vertices (removeEdge g e)) \<and> connected_graph (removeEdge g e)"
    using sub unfolding connected_graph_def graph_rel_edge_rel [OF nd] graph_rel_edge_rel [OF nd']
    by auto
  then have "isConnected (removeEdge g e)" by (simp add: isConnected_iff [OF nd'])
  with br show False by simp
qed

lemma no_parallel_filter: "no_parallel es \<Longrightarrow> no_parallel (filter P es)"
  by (induction es) auto

lemma edgesEqual_refl [simp]: "edgesEqual e e"
  by (simp add: edgesEqual_def)

lemma bridges_forest:
  "no_parallel es \<Longrightarrow>
   \<forall>e \<in> set es. (u e, v e) \<notin> (edge_rel (filter (\<lambda>e'. \<not> edgesEqual e' e) es))\<^sup>* \<Longrightarrow>
   forest es"
proof (induction es)
  case Nil
  show ?case by simp
next
  case (Cons e es)
  have "filter (\<lambda>e'. \<not> edgesEqual e' e) (e # es) = es"
    using Cons.prems(1) by (simp add: filter_id_conv)
  then have here: "(u e, v e) \<notin> (edge_rel es)\<^sup>*"
    using Cons.prems(2) by (metis list.set_intros(1))
  have "\<forall>e1 \<in> set es. (u e1, v e1) \<notin> (edge_rel (filter (\<lambda>e'. \<not> edgesEqual e' e1) es))\<^sup>*"
  proof
    fix e1
    assume e1: "e1 \<in> set es"
    have "set (filter (\<lambda>e'. \<not> edgesEqual e' e1) es)
            \<subseteq> set (filter (\<lambda>e'. \<not> edgesEqual e' e1) (e # es))" by auto
    then have "(edge_rel (filter (\<lambda>e'. \<not> edgesEqual e' e1) es))\<^sup>*
                 \<subseteq> (edge_rel (filter (\<lambda>e'. \<not> edgesEqual e' e1) (e # es)))\<^sup>*"
      by (intro rtrancl_mono edge_rel_mono)
    moreover have "(u e1, v e1) \<notin> (edge_rel (filter (\<lambda>e'. \<not> edgesEqual e' e1) (e # es)))\<^sup>*"
      using Cons.prems(2) e1 by (meson list.set_intros(2))
    ultimately show "(u e1, v e1) \<notin> (edge_rel (filter (\<lambda>e'. \<not> edgesEqual e' e1) es))\<^sup>*"
      by blast
  qed
  with Cons here show ?case by simp
qed

lemma comps_connected:
  assumes nd: "no_dangling g" and c: "connected_graph g" and ne: "vertices g \<noteq> []"
  shows "comps (set (vertices g)) (edges g) = {set (vertices g)}"
proof -
  have "(edge_rel (edges g))\<^sup>* `` {x} = set (vertices g)" if "x \<in> set (vertices g)" for x
    using reach_in_vertices [OF nd that] c that
    unfolding connected_graph_def graph_rel_edge_rel [OF nd] by auto
  then have "comps (set (vertices g)) (edges g) = (\<lambda>x. set (vertices g)) ` set (vertices g)"
    by (simp add: comps_def)
  then show ?thesis using ne by (simp add: image_constant_conv)
qed

text \<open>
  A connected graph without parallel edges in which the removal of any edge disconnects
  has one edge less than it has vertices.
\<close>

lemma tree_edge_count:
  assumes nd: "no_dangling g" and c: "isConnected g" and ne: "vertices g \<noteq> []"
    and np: "no_parallel (edges g)"
    and br: "\<forall>e \<in> set (edges g). \<not> isConnected (removeEdge g e)"
  shows "length (edges g) + 1 = length (vertices g)"
proof -
  have d: "distinct (vertices g)" and cg: "connected_graph g"
    using c isConnected_iff [OF nd] by auto
  have "forest (edges g)"
    using np
  proof (rule bridges_forest)
    show "\<forall>e \<in> set (edges g).
            (u e, v e) \<notin> (edge_rel (filter (\<lambda>e'. \<not> edgesEqual e' e) (edges g)))\<^sup>*"
      using br bridge_separates [OF nd c] by blast
  qed
  moreover have "\<forall>e \<in> set (edges g). u e \<in> set (vertices g) \<and> v e \<in> set (vertices g)"
    using nd by (simp add: no_dangling_def list_all_iff)
  ultimately have "card (comps (set (vertices g)) (edges g)) + length (edges g)
                     = card (set (vertices g))"
    by (intro forest_count) auto
  then show ?thesis
    using comps_connected [OF nd cg ne] d by (simp add: distinct_card)
qed

section \<open>What validation guarantees\<close>

lemma duplicate_scan_no_parallel:
  "duplicate_scan es seen [] = [] \<Longrightarrow>
     no_parallel es \<and>
     (\<forall>e \<in> set es. u e @ ''-'' @ v e \<notin> set seen \<and> v e @ ''-'' @ u e \<notin> set seen)"
proof (induction es arbitrary: seen)
  case Nil
  show ?case by simp
next
  case (Cons e es)
  let ?k1 = "u e @ ''-'' @ v e" and ?k2 = "v e @ ''-'' @ u e"
  let ?seen' = "List.insert ?k2 (List.insert ?k1 seen)"
  have fresh: "?k1 \<notin> set seen \<and> ?k2 \<notin> set seen"
  proof (rule ccontr)
    assume "\<not> (?k1 \<notin> set seen \<and> ?k2 \<notin> set seen)"
    then have "duplicate_scan (e # es) seen [] =
        duplicate_scan es seen
          [mk_error duplicate_edge (''Duplicate edge found: '' @ edge_name e) (Some e)]"
      by (auto simp: Let_def)
    then have "duplicate_scan (e # es) seen [] \<noteq> []"
      using duplicate_scan_append [of es seen
          "[mk_error duplicate_edge (''Duplicate edge found: '' @ edge_name e) (Some e)]"]
      by simp
    with Cons.prems show False by simp
  qed
  then have "duplicate_scan (e # es) seen [] = duplicate_scan es ?seen' []"
    by (simp add: Let_def)
  then have "duplicate_scan es ?seen' [] = []" using Cons.prems by simp
  then have IH: "no_parallel es"
    "\<forall>e' \<in> set es. u e' @ ''-'' @ v e' \<notin> set ?seen' \<and> v e' @ ''-'' @ u e' \<notin> set ?seen'"
    using Cons.IH [of ?seen'] by auto
  have "\<not> edgesEqual e' e" if "e' \<in> set es" for e'
  proof
    assume "edgesEqual e' e"
    then have "u e' @ ''-'' @ v e' = ?k1 \<or> u e' @ ''-'' @ v e' = ?k2"
      by (auto simp: edgesEqual_def)
    with IH(2) that show False by auto
  qed
  with IH fresh show ?case by auto
qed

lemma valid_graph_facts:
  assumes "validateGraph g = []"
  shows "vertices g \<noteq> []" "no_dangling g" "no_parallel (edges g)" "isConnected g"
proof -
  show ne: "vertices g \<noteq> []"
    using assms by (auto simp: validateGraph_def)
  have se: "scan_errors g = []" and c: "isConnected g"
    using assms validateGraph_eq [OF ne] by (auto split: if_splits)
  show "isConnected g" by (rule c)
  have "duplicate_scan (edges g) [] [] = []"
    and me: "concat (map (missing_endpoint_errors (vertices g)) (edges g)) = []"
    using se by (simp_all add: scan_errors_eq)
  then show "no_parallel (edges g)" using duplicate_scan_no_parallel by blast
  show "no_dangling g"
    using me by (auto simp: no_dangling_def list_all_iff missing_endpoint_errors_def
        split: if_splits)
qed

section \<open>The loop of Reverse-Delete\<close>

lemma set_insert_by: "set (insert_by cmp x ys) = insert x (set ys)"
  by (induction ys) auto

lemma set_stable_sort_by: "set (stable_sort_by cmp xs) = set xs"
  by (induction xs) (simp_all add: stable_sort_by_def set_insert_by)

lemma process_edges_skip:
  "\<not> list_ex (\<lambda>e'. edgesEqual e' e) (edges cur) \<Longrightarrow>
     process_edges (e # es) (cur, acc, n) = process_edges es (cur, acc, n)"
  by simp

lemma process_edges_keep:
  "list_ex (\<lambda>e'. edgesEqual e' e) (edges cur) \<Longrightarrow> \<not> isConnected (removeEdge cur e) \<Longrightarrow>
     process_edges (e # es) (cur, acc, n) =
       process_edges es (cur, acc @ [consider_step e cur n, keep_step e cur (n + 1)], n + 2)"
  by (simp add: Let_def)

lemma process_edges_delete:
  "list_ex (\<lambda>e'. edgesEqual e' e) (edges cur) \<Longrightarrow> isConnected (removeEdge cur e) \<Longrightarrow>
     process_edges (e # es) (cur, acc, n) =
       process_edges es
         (removeEdge cur e,
          acc @ [consider_step e cur n, delete_step e (removeEdge cur e) (n + 1)], n + 2)"
  by (simp add: Let_def)

text \<open>
  The loop keeps the vertices, only filters the edges, and pushes no \<open>complete\<close> step;
  the last step it pushes, if any, carries the working graph it ends with.
\<close>

lemma process_edges_shape:
  "process_edges es (cur, acc, n) = (cur', acc', n') \<Longrightarrow>
     vertices cur' = vertices cur \<and> (\<exists>P. edges cur' = filter P (edges cur)) \<and>
     (\<exists>ns. acc' = acc @ ns \<and> (\<forall>s \<in> set ns. step_type s \<noteq> Complete) \<and>
           (if ns = [] then cur' = cur else snapshot (last ns) = cur'))"
proof (induction es arbitrary: cur acc n)
  case Nil
  then have "cur' = cur" "acc' = acc" by simp_all
  then have "edges cur' = filter (\<lambda>e. True) (edges cur)" by simp
  then have "\<exists>P. edges cur' = filter P (edges cur)" by blast
  moreover have "\<exists>ms. acc' = acc @ ms \<and> (\<forall>s \<in> set ms. step_type s \<noteq> Complete) \<and>
           (if ms = [] then cur' = cur else snapshot (last ms) = cur')"
    using \<open>cur' = cur\<close> \<open>acc' = acc\<close> by (intro exI [of _ "[]"]) simp
  ultimately show ?case using \<open>cur' = cur\<close> by simp
next
  case (Cons e es)
  consider (skip) "\<not> list_ex (\<lambda>e'. edgesEqual e' e) (edges cur)"
    | (keep) "list_ex (\<lambda>e'. edgesEqual e' e) (edges cur)" "\<not> isConnected (removeEdge cur e)"
    | (del) "list_ex (\<lambda>e'. edgesEqual e' e) (edges cur)" "isConnected (removeEdge cur e)"
    by blast
  then show ?case
  proof cases
    case skip
    have "process_edges es (cur, acc, n) = (cur', acc', n')"
      using Cons.prems unfolding process_edges_skip [OF skip] .
    then show ?thesis by (rule Cons.IH)
  next
    case keep
    let ?new = "[consider_step e cur n, keep_step e cur (n + 1)]"
    have "process_edges es (cur, acc @ ?new, n + 2) = (cur', acc', n')"
      using Cons.prems unfolding process_edges_keep [OF keep] .
    from Cons.IH [OF this] obtain P ns where
      vs: "vertices cur' = vertices cur" and P: "edges cur' = filter P (edges cur)"
      and ns: "acc' = (acc @ ?new) @ ns" "\<forall>s \<in> set ns. step_type s \<noteq> Complete"
        "if ns = [] then cur' = cur else snapshot (last ns) = cur'"
      by blast
    have "acc' = acc @ (?new @ ns)" using ns(1) by simp
    moreover have "\<forall>s \<in> set (?new @ ns). step_type s \<noteq> Complete"
      using ns(2) by (auto simp: consider_step_def keep_step_def)
    moreover have "snapshot (last (?new @ ns)) = cur'"
      using ns(3) by (auto simp: keep_step_def split: if_splits)
    ultimately have "\<exists>ms. acc' = acc @ ms \<and> (\<forall>s \<in> set ms. step_type s \<noteq> Complete) \<and>
           (if ms = [] then cur' = cur else snapshot (last ms) = cur')"
      by (intro exI [of _ "?new @ ns"]) simp
    moreover have "\<exists>P. edges cur' = filter P (edges cur)" using P by blast
    ultimately show ?thesis using vs by simp
  next
    case del
    let ?cur = "removeEdge cur e"
    let ?new = "[consider_step e cur n, delete_step e ?cur (n + 1)]"
    have "process_edges es (?cur, acc @ ?new, n + 2) = (cur', acc', n')"
      using Cons.prems unfolding process_edges_delete [OF del] .
    from Cons.IH [OF this] obtain P ns where
      vs: "vertices cur' = vertices ?cur" and P: "edges cur' = filter P (edges ?cur)"
      and ns: "acc' = (acc @ ?new) @ ns" "\<forall>s \<in> set ns. step_type s \<noteq> Complete"
        "if ns = [] then cur' = ?cur else snapshot (last ns) = cur'"
      by blast
    have "acc' = acc @ (?new @ ns)" using ns(1) by simp
    moreover have "\<forall>s \<in> set (?new @ ns). step_type s \<noteq> Complete"
      using ns(2) by (auto simp: consider_step_def delete_step_def)
    moreover have "snapshot (last (?new @ ns)) = cur'"
      using ns(3) by (auto simp: delete_step_def split: if_splits)
    ultimately have "\<exists>ms. acc' = acc @ ms \<and> (\<forall>s \<in> set ms. step_type s \<noteq> Complete) \<and>
           (if ms = [] then cur' = cur else snapshot (last ms) = cur')"
      by (intro exI [of _ "?new @ ns"]) simp
    moreover have "edges cur' = filter (\<lambda>e'. \<not> edgesEqual e' e \<and> P e') (edges cur)"
      using P by simp
    then have "\<exists>P. edges cur' = filter P (edges cur)" by blast
    moreover have "vertices cur' = vertices cur" using vs by simp
    ultimately show ?thesis by simp
  qed
qed

lemma process_edges_connected:
  "process_edges es (cur, acc, n) = (cur', acc', n') \<Longrightarrow> isConnected cur \<Longrightarrow>
     isConnected cur'"
proof (induction es arbitrary: cur acc n)
  case Nil
  then show ?case by simp
next
  case (Cons e es)
  consider (skip) "\<not> list_ex (\<lambda>e'. edgesEqual e' e) (edges cur)"
    | (keep) "list_ex (\<lambda>e'. edgesEqual e' e) (edges cur)" "\<not> isConnected (removeEdge cur e)"
    | (del) "list_ex (\<lambda>e'. edgesEqual e' e) (edges cur)" "isConnected (removeEdge cur e)"
    by blast
  then show ?case
  proof cases
    case skip
    have "process_edges es (cur, acc, n) = (cur', acc', n')"
      using Cons.prems(1) unfolding process_edges_skip [OF skip] .
    then show ?thesis using Cons.prems(2) by (rule Cons.IH)
  next
    case keep
    have "process_edges es
        (cur, acc @ [consider_step e cur n, keep_step e cur (n + 1)], n + 2) = (cur', acc', n')"
      using Cons.prems(1) unfolding process_edges_keep [OF keep] .
    then show ?thesis using Cons.prems(2) by (rule Cons.IH)
  next
    case del
    have "process_edges es
        (removeEdge cur e,
         acc @ [consider_step e cur n, delete_step e (removeEdge cur e) (n + 1)], n + 2)
        = (cur', acc', n')"
      using Cons.prems(1) unfolding process_edges_delete [OF del] .
    then show ?thesis using del(2) by (rule Cons.IH)
  qed
qed

text \<open>
  Every edge the loop has looked at and that is still present at the end is one whose
  removal disconnects the final graph.
\<close>

lemma process_edges_bridges:
  "process_edges es (cur, acc, n) = (cur', acc', n') \<Longrightarrow> no_dangling cur \<Longrightarrow>
     \<forall>e \<in> set es. list_ex (\<lambda>e'. edgesEqual e' e) (edges cur') \<longrightarrow>
       \<not> isConnected (removeEdge cur' e)"
proof (induction es arbitrary: cur acc n)
  case Nil
  show ?case by simp
next
  case (Cons e es)
  consider (skip) "\<not> list_ex (\<lambda>e'. edgesEqual e' e) (edges cur)"
    | (keep) "list_ex (\<lambda>e'. edgesEqual e' e) (edges cur)" "\<not> isConnected (removeEdge cur e)"
    | (del) "list_ex (\<lambda>e'. edgesEqual e' e) (edges cur)" "isConnected (removeEdge cur e)"
    by blast
  then show ?case
  proof cases
    case skip
    have run: "process_edges es (cur, acc, n) = (cur', acc', n')"
      using Cons.prems(1) unfolding process_edges_skip [OF skip] .
    obtain P where "edges cur' = filter P (edges cur)"
      using process_edges_shape [OF run] by blast
    then have "\<not> list_ex (\<lambda>e'. edgesEqual e' e) (edges cur')"
      using skip by (auto simp: list_ex_iff)
    then show ?thesis using Cons.IH [OF run Cons.prems(2)] by simp
  next
    case keep
    have run: "process_edges es
        (cur, acc @ [consider_step e cur n, keep_step e cur (n + 1)], n + 2) = (cur', acc', n')"
      using Cons.prems(1) unfolding process_edges_keep [OF keep] .
    obtain P where vs: "vertices cur' = vertices cur" and P: "edges cur' = filter P (edges cur)"
      using process_edges_shape [OF run] by blast
    have "\<not> isConnected (removeEdge cur' e)"
    proof
      assume "isConnected (removeEdge cur' e)"
      moreover have "no_dangling (removeEdge cur e)"
        using Cons.prems(2) by (rule no_dangling_removeEdge)
      moreover have "vertices (removeEdge cur' e) = vertices (removeEdge cur e)"
        using vs by simp
      moreover have "set (edges (removeEdge cur' e)) \<subseteq> set (edges (removeEdge cur e))"
        using P by auto
      ultimately have "isConnected (removeEdge cur e)"
        using isConnected_mono [of "removeEdge cur e" "removeEdge cur' e"] by blast
      with keep(2) show False by simp
    qed
    then show ?thesis using Cons.IH [OF run Cons.prems(2)] by simp
  next
    case del
    have run: "process_edges es
        (removeEdge cur e,
         acc @ [consider_step e cur n, delete_step e (removeEdge cur e) (n + 1)], n + 2)
        = (cur', acc', n')"
      using Cons.prems(1) unfolding process_edges_delete [OF del] .
    obtain P where "edges cur' = filter P (edges (removeEdge cur e))"
      using process_edges_shape [OF run] by blast
    then have "\<not> list_ex (\<lambda>e'. edgesEqual e' e) (edges cur')"
      by (auto simp: list_ex_iff)
    then show ?thesis
      using Cons.IH [OF run no_dangling_removeEdge [OF Cons.prems(2)]] by simp
  qed
qed

section \<open>Reverse-Delete yields a spanning tree\<close>

text \<open>
  Claim C1. For a graph with at least one edge on which validation reports nothing, the
  snapshot of the last step of the trace that is not the \<open>complete\<close> step has the
  vertices of the input, edges taken from the input, one edge less than there are
  vertices, and is connected. The proof uses of the sorted list only that it holds the
  edges of the input, so the order in which the edges are tried does not matter here.
\<close>

theorem reverseDelete_spanning_tree:
  assumes valid: "validateGraph g = []" and some: "edges g \<noteq> []"
  shows "let s = last (filter (\<lambda>s. step_type s \<noteq> Complete) (reverseDelete g))
         in length (edges (snapshot s)) = length (vertices g) - 1
            \<and> 0 < length (vertices g)
            \<and> isConnected (snapshot s)
            \<and> vertices (snapshot s) = vertices g
            \<and> set (edges (snapshot s)) \<subseteq> set (edges g)"
proof -
  note facts = valid_graph_facts [OF valid]
  let ?sorted = "stable_sort_by cmp_weight_desc (edges g)"
  let ?first = "\<lparr>step_type = Consider, step_edge = ?sorted ! 0,
      explanation = ''Starting Reverse-Delete algorithm. We'll process edges in descending order of weight.'',
      snapshot = g, stepNumber = 0\<rparr>"
  have sorted_ne: "?sorted \<noteq> []"
    using some set_stable_sort_by [of cmp_weight_desc "edges g"] by (metis set_empty)
  obtain cur' acc' n' where run: "process_edges ?sorted (g, [?first], 1) = (cur', acc', n')"
    by (metis prod_cases3)
  obtain fin where rd: "reverseDelete g = acc' @ [fin]" and fin: "step_type fin = Complete"
    using sorted_ne run by (simp add: reverseDelete_def Let_def)
  from process_edges_shape [OF run] obtain P ns where
    vs: "vertices cur' = vertices g" and P: "edges cur' = filter P (edges g)"
    and ns: "acc' = [?first] @ ns" "\<forall>s \<in> set ns. step_type s \<noteq> Complete"
      "if ns = [] then cur' = g else snapshot (last ns) = cur'"
    by blast
  have "\<forall>s \<in> set acc'. step_type s \<noteq> Complete" using ns(1,2) by auto
  then have "filter (\<lambda>s. step_type s \<noteq> Complete) (reverseDelete g) = acc'"
    using fin by (simp add: rd filter_id_conv)
  moreover have "snapshot (last acc') = cur'"
    using ns(1,3) by (auto split: if_splits)
  ultimately have snap: "snapshot (last (filter (\<lambda>s. step_type s \<noteq> Complete) (reverseDelete g))) = cur'"
    by simp
  have sub: "set (edges cur') \<subseteq> set (edges g)" using P by auto
  have nd: "no_dangling cur'" using facts(2) vs sub by (rule no_dangling_subgraph)
  have c: "isConnected cur'" using run facts(4) by (rule process_edges_connected)
  have np: "no_parallel (edges cur')" using facts(3) P by (simp add: no_parallel_filter)
  have br: "\<forall>e \<in> set (edges cur'). \<not> isConnected (removeEdge cur' e)"
  proof
    fix e
    assume e: "e \<in> set (edges cur')"
    then have "e \<in> set ?sorted" using sub by (auto simp: set_stable_sort_by)
    moreover have "list_ex (\<lambda>e'. edgesEqual e' e) (edges cur')"
      using e by (auto simp: list_ex_iff intro: bexI [of _ e])
    ultimately show "\<not> isConnected (removeEdge cur' e)"
      using process_edges_bridges [OF run facts(2)] by blast
  qed
  have "length (edges cur') + 1 = length (vertices cur')"
    using nd c _ np br by (rule tree_edge_count) (use facts(1) vs in simp)
  then have "length (edges cur') = length (vertices g) - 1" and "0 < length (vertices g)"
    using vs facts(1) by simp_all
  then show ?thesis using c vs sub by (simp add: snap Let_def)
qed

theorem reverseDelete_spanning_tree_witness:
  "validateGraph triangle = [] \<and> edges triangle \<noteq> []
   \<and> (let s = last (filter (\<lambda>s. step_type s \<noteq> Complete) (reverseDelete triangle))
      in length (edges (snapshot s)) = length (vertices triangle) - 1
         \<and> 0 < length (vertices triangle)
         \<and> isConnected (snapshot s)
         \<and> vertices (snapshot s) = vertices triangle
         \<and> set (edges (snapshot s)) \<subseteq> set (edges triangle))"
proof -
  have a: "validateGraph triangle = []" by code_simp
  have b: "edges triangle \<noteq> []" by code_simp
  show ?thesis using reverseDelete_spanning_tree [OF a b] a b by simp
qed

end
